theory Spec2Isabelle
  imports Main "HOL-Library.Sublist"
begin

section \<open>Python strings\<close>

text \<open>
  Texts are lists of 8-bit characters (the Latin-1 range of Python's \<open>str\<close>). The
  predicates below are \<open>str.isspace\<close>, the regular-expression class \<open>\d\<close> and
  \<open>str.lower\<close> restricted to that range.
\<close>

abbreviation NL :: char where
  "NL \<equiv> CHR 0x0A"

definition isspace :: "char \<Rightarrow> bool" where
  "isspace c =
     (let n = (of_char c :: nat)
      in (9 \<le> n \<and> n \<le> 13) \<or> (28 \<le> n \<and> n \<le> 32) \<or> n = 133 \<or> n = 160)"

definition isdigit :: "char \<Rightarrow> bool" where
  "isdigit c = (let n = (of_char c :: nat) in 48 \<le> n \<and> n \<le> 57)"

definition lower_char :: "char \<Rightarrow> char" where
  "lower_char c =
     (let n = (of_char c :: nat)
      in if (65 \<le> n \<and> n \<le> 90) \<or> (192 \<le> n \<and> n \<le> 222 \<and> n \<noteq> 215)
         then char_of (n + 32) else c)"

definition lower :: "string \<Rightarrow> string" where
  "lower s = map lower_char s"

definition strip :: "string \<Rightarrow> string" where
  "strip s = rev (dropWhile isspace (rev (dropWhile isspace s)))"

definition startswith :: "string \<Rightarrow> string \<Rightarrow> bool" where
  "startswith s p = prefix p s"

text \<open>\<open>sub in s\<close> for strings.\<close>

fun contains :: "string \<Rightarrow> string \<Rightarrow> bool" where
  "contains sub [] = (sub = [])"
| "contains sub (c # cs) = (prefix sub (c # cs) \<or> contains sub cs)"

text \<open>
  \<open>s.split(sep)\<close> for a non-empty separator (every call in the program passes a
  literal one): the pieces between the non-overlapping occurrences of \<open>sep\<close>, found
  from the left. The second argument accumulates the current piece, reversed.
\<close>

fun split_on :: "string \<Rightarrow> string \<Rightarrow> string \<Rightarrow> string list" where
  "split_on sep acc [] = [rev acc]"
| "split_on sep acc (c # cs) =
     (if prefix sep (c # cs) then rev acc # split_on sep [] (drop (length sep - 1) cs)
      else split_on sep (c # acc) cs)"

definition split :: "string \<Rightarrow> string \<Rightarrow> string list" where
  "split s sep = split_on sep [] s"

text \<open>\<open>s.replace(old, new)\<close> for a non-empty \<open>old\<close>.\<close>

fun replace_from :: "string \<Rightarrow> string \<Rightarrow> string \<Rightarrow> string" where
  "replace_from old new [] = []"
| "replace_from old new (c # cs) =
     (if prefix old (c # cs) then new @ replace_from old new (drop (length old - 1) cs)
      else c # replace_from old new cs)"

definition replace :: "string \<Rightarrow> string \<Rightarrow> string \<Rightarrow> string" where
  "replace s old new = replace_from old new s"

text \<open>\<open>sep.join(parts)\<close>.\<close>

fun join :: "string \<Rightarrow> string list \<Rightarrow> string" where
  "join sep [] = []"
| "join sep [p] = p"
| "join sep (p # q # ps) = p @ sep @ join sep (q # ps)"

text \<open>\<open>str(n)\<close> for a natural number.\<close>

fun str_nat :: "nat \<Rightarrow> string" where
  "str_nat n =
     (if n < 10 then [char_of (48 + n)]
      else str_nat (n div 10) @ [char_of (48 + n mod 10)])"

declare str_nat.simps [simp del]

text \<open>
  The slice \<open>xs[:k]\<close>: for a negative \<open>k\<close> Python counts from the end and drops the
  last \<open>-k\<close> elements.
\<close>

definition slice_to :: "'a list \<Rightarrow> int \<Rightarrow> 'a list" where
  "slice_to xs k = (if 0 \<le> k then take (nat k) xs else take (length xs - nat (- k)) xs)"

text \<open>
  \<open>list(set(xs))\<close>: the elements of \<open>xs\<close> without repetition. Python leaves the order
  of the result open; the model fixes one.
\<close>

definition list_set :: "'a list \<Rightarrow> 'a list" where
  "list_set xs = remdups xs"


section \<open>Regular expressions\<close>

text \<open>
  The patterns of the program use literals, character classes, alternation, the greedy
  and lazy repetitions \<open>*\<close>, \<open>+\<close>, \<open>?\<close> and their lazy forms, groups and \<open>$\<close>. The
  matcher is the backtracking one of Python's \<open>re\<close>: it passes the rest of the pattern
  as a continuation, tries the alternatives in the order of the pattern, and returns the
  first success. A match state is the groups captured so far and the text still unread.
\<close>

type_synonym caps = "(nat \<times> string) list"
type_synonym mstate = "caps \<times> string"

datatype re =
    Atom "char \<Rightarrow> bool"
  | Eps
  | Eos
  | Seq re re
  | Alt re re
  | Opt re
  | Star bool re
  | Grp nat re

text \<open>
  \<open>star greedy f k n st\<close> repeats the matcher \<open>f\<close> at most \<open>n\<close> times before going on
  with \<open>k\<close>; an iteration has to read at least one character, so \<open>n\<close> = the length of
  the unread text is always enough. A greedy repetition tries one more iteration first,
  a lazy one tries the continuation first.
\<close>

primrec star ::
  "bool \<Rightarrow> ((mstate \<Rightarrow> mstate option) \<Rightarrow> mstate \<Rightarrow> mstate option) \<Rightarrow>
   (mstate \<Rightarrow> mstate option) \<Rightarrow> nat \<Rightarrow> mstate \<Rightarrow> mstate option" where
  "star g f k 0 st = k st"
| "star g f k (Suc n) st =
     (if g then
        (case f (\<lambda>st'. if length (snd st') < length (snd st) then star g f k n st' else None) st of
           Some r \<Rightarrow> Some r
         | None \<Rightarrow> k st)
      else
        (case k st of
           Some r \<Rightarrow> Some r
         | None \<Rightarrow>
             f (\<lambda>st'. if length (snd st') < length (snd st) then star g f k n st' else None) st))"

text \<open>
  \<open>Eos\<close> is \<open>$\<close> without the MULTILINE flag: the end of the text, or just before a
  newline that is the last character. \<open>Grp n r\<close> records what \<open>r\<close> has read as group
  \<open>n\<close>.
\<close>

primrec rmatch :: "re \<Rightarrow> (mstate \<Rightarrow> mstate option) \<Rightarrow> mstate \<Rightarrow> mstate option" where
  "rmatch (Atom p) k st =
     (case snd st of [] \<Rightarrow> None | c # cs \<Rightarrow> if p c then k (fst st, cs) else None)"
| "rmatch Eps k st = k st"
| "rmatch Eos k st = (if snd st = [] \<or> snd st = [NL] then k st else None)"
| "rmatch (Seq a b) k st = rmatch a (rmatch b k) st"
| "rmatch (Alt a b) k st = (case rmatch a k st of Some r \<Rightarrow> Some r | None \<Rightarrow> rmatch b k st)"
| "rmatch (Opt a) k st = (case rmatch a k st of Some r \<Rightarrow> Some r | None \<Rightarrow> k st)"
| "rmatch (Star g a) k st = star g (rmatch a) k (length (snd st)) st"
| "rmatch (Grp n a) k st =
     rmatch a
       (\<lambda>st'. k ((n, take (length (snd st) - length (snd st')) (snd st)) # fst st', snd st')) st"

text \<open>\<open>re.search\<close>: the match at the leftmost position that has one.\<close>

fun search :: "re \<Rightarrow> string \<Rightarrow> mstate option" where
  "search r [] = rmatch r Some ([], [])"
| "search r (c # cs) =
     (case rmatch r Some ([], c # cs) of None \<Rightarrow> search r cs | Some m \<Rightarrow> Some m)"

text \<open>
  \<open>re.finditer\<close> and \<open>re.findall\<close>: the successive matches, each search starting where
  the previous match ended (one character further after an empty match).
\<close>

fun finditer :: "re \<Rightarrow> string \<Rightarrow> caps list" where
  "finditer r [] = (case rmatch r Some ([], []) of None \<Rightarrow> [] | Some m \<Rightarrow> [fst m])"
| "finditer r (c # cs) =
     (case rmatch r Some ([], c # cs) of
        None \<Rightarrow> finditer r cs
      | Some m \<Rightarrow>
          fst m # (if length (snd m) < Suc (length cs) then finditer r (snd m) else finditer r cs))"

text \<open>\<open>match.group(n)\<close> for a group that took part in the match.\<close>

definition group :: "caps \<Rightarrow> nat \<Rightarrow> string" where
  "group m n = (case map_of m n of Some t \<Rightarrow> t | None \<Rightarrow> [])"

subsection \<open>Pattern syntax\<close>

definition chr :: "char \<Rightarrow> re" where
  "chr c = Atom (\<lambda>x. x = c)"

definition chr_i :: "char \<Rightarrow> re" where
  "chr_i c = Atom (\<lambda>x. lower_char x = lower_char c)"

primrec lit :: "string \<Rightarrow> re" where
  "lit [] = Eps"
| "lit (c # cs) = Seq (chr c) (lit cs)"

primrec lit_i :: "string \<Rightarrow> re" where
  "lit_i [] = Eps"
| "lit_i (c # cs) = Seq (chr_i c) (lit_i cs)"

definition any_char :: re where
  "any_char = Atom (\<lambda>x. True)"

definition dot :: re where
  "dot = Atom (\<lambda>x. x \<noteq> NL)"

definition space :: re where
  "space = Atom isspace"

definition digit :: re where
  "digit = Atom isdigit"

definition in_range :: "char \<Rightarrow> char \<Rightarrow> char \<Rightarrow> bool" where
  "in_range a b x = ((of_char a :: nat) \<le> of_char x \<and> (of_char x :: nat) \<le> of_char b)"

definition plus :: "bool \<Rightarrow> re \<Rightarrow> re" where
  "plus g r = Seq r (Star g r)"

primrec seqs :: "re list \<Rightarrow> re" where
  "seqs [] = Eps"
| "seqs (r # rs) = Seq r (seqs rs)"


section \<open>Data model\<close>

text \<open>The classes of \<open>core/models.py\<close> and the settings the orchestrator reads.\<close>

record research_plan =
  tasks :: "string list"
  rationale :: string
  estimated_duration :: "int option"

text \<open>
  The dictionary a subagent returns (and the coordinator builds for a failed one); its
  keys are those of \<open>SubagentResult\<close>.
\<close>

record subagent_result =
  agent_id :: string
  task :: string
  summary :: string
  findings :: string
  sources :: "string list"
  confidence :: string

record citation =
  index :: int
  title :: string
  url :: string
  accessed_date :: string
  excerpt :: "string option"

datatype detail = DStr string | DInt int | DList "string list"

record progress_update =
  phase :: string
  message :: string
  percent :: int
  details :: "(string \<times> detail) list option"

record run_metadata =
  subagents_count :: nat
  sources_count :: nat
  duration_seconds :: int

record research_result =
  query :: string
  plan :: research_plan
  subagent_results :: "subagent_result list"
  synthesis :: string
  cited_report :: string
  bibliography :: "citation list"
  metadata :: run_metadata

record settings =
  max_subagents :: int
  min_subagents :: int

definition default_settings :: settings where
  "default_settings = \<lparr>max_subagents = 5, min_subagents = 3\<rparr>"

text \<open>
  Exceptions. \<open>Exception m\<close> is an instance of \<open>Exception\<close>, which \<open>except Exception\<close>
  catches, with \<open>str(e)\<close> = \<open>m\<close>. \<open>Base_exception c m\<close> is an exception of class \<open>c\<close>
  that is no instance of \<open>Exception\<close>, such as \<open>asyncio.CancelledError\<close>, with
  \<open>str(e)\<close> = \<open>m\<close>; \<open>except Exception\<close> and \<open>isinstance(e, Exception)\<close> let it pass.
  (\<open>KeyboardInterrupt\<close> and \<open>SystemExit\<close>, which stop the event loop, are not
  modelled.)
\<close>

datatype exn = Exception string | Base_exception string string

primrec str_exn :: "exn \<Rightarrow> string" where
  "str_exn (Exception m) = m"
| "str_exn (Base_exception c m) = m"

text \<open>
  \<open>int(s)\<close> on a string of decimal digits: CPython refuses a string of more than 4300
  digits (its default limit) with a \<open>ValueError\<close>.
\<close>

definition int_of_digits :: "string \<Rightarrow> exn + int" where
  "int_of_digits s =
     (if length s > 4300
      then Inl (Exception
        (''Exceeds the limit (4300 digits) for integer string conversion: value has ''
         @ str_nat (length s)
         @ '' digits; use sys.set_int_max_str_digits() to increase the limit''))
      else Inr (foldl (\<lambda>a c. 10 * a + (int (of_char c) - 48)) 0 s))"

text \<open>
  An element of the list the coordinator returns: the dictionary of a result, or the
  exception object (class and text) of a worker that ended with an exception that is no
  \<open>Exception\<close>. \<open>results_of\<close> keeps the dictionaries, \<open>first_exception_object\<close> finds
  the first element that is none.
\<close>

datatype entry = Result subagent_result | Exception_object string string

fun results_of :: "entry list \<Rightarrow> subagent_result list" where
  "results_of [] = []"
| "results_of (Result r # es) = r # results_of es"
| "results_of (Exception_object c m # es) = results_of es"

fun first_exception_object :: "entry list \<Rightarrow> (string \<times> string) option" where
  "first_exception_object [] = None"
| "first_exception_object (Result r # es) = first_exception_object es"
| "first_exception_object (Exception_object c m # es) = Some (c, m)"


section \<open>Parsers (\<open>utils/parsers.py\<close>)\<close>

text \<open>\<open><task>(.*?)</task>\<close> and \<open><rationale>(.*?)</rationale>\<close>, with DOTALL.\<close>

definition task_re :: re where
  "task_re = seqs [lit ''<task>'', Grp 1 (Star False any_char), lit ''</task>'']"

definition rationale_re :: re where
  "rationale_re = seqs [lit ''<rationale>'', Grp 1 (Star False any_char), lit ''</rationale>'']"

definition parse_research_plan :: "string \<Rightarrow> string list \<times> string" where
  "parse_research_plan content =
     (let tasks = map (\<lambda>m. group m 1) (finditer task_re content);
          rationale_match = search rationale_re content
      in (map strip (filter (\<lambda>task. strip task \<noteq> []) tasks),
          (case rationale_match of Some m \<Rightarrow> strip (group (fst m) 1) | None \<Rightarrow> [])))"

text \<open>
  \<open>(?:Bibliography|Sources|References):?\s*\n(.+)\<close> with DOTALL and IGNORECASE.
\<close>

definition bib_re :: re where
  "bib_re =
     seqs [Alt (lit_i ''Bibliography'') (Alt (lit_i ''Sources'') (lit_i ''References'')),
           Opt (chr CHR '':''), Star True space, chr NL, Grp 1 (plus True any_char)]"

text \<open>\<open>\[(\d+)\]\s*(.+?)(?:\n\[|$)\<close> with DOTALL.\<close>

definition citation_pattern :: re where
  "citation_pattern =
     seqs [chr CHR ''['', Grp 1 (plus True digit), chr CHR '']'', Star True space,
           Grp 2 (plus False any_char), Alt (lit [NL, CHR ''['']) Eos]"

text \<open>\<open>URL:\s*(.+?)(?:\n|$)\<close> and \<open>Accessed:\s*(.+?)(?:\n|$)\<close>.\<close>

definition url_line_re :: re where
  "url_line_re = seqs [lit ''URL:'', Star True space, Grp 1 (plus False dot), Alt (chr NL) Eos]"

definition accessed_re :: re where
  "accessed_re =
     seqs [lit ''Accessed:'', Star True space, Grp 1 (plus False dot), Alt (chr NL) Eos]"

text \<open>
  The body of the loop over the matches of \<open>citation_pattern\<close>: the Citation built from
  one match. \<open>title_lines[0]\<close> is the head of the list \<open>split\<close> returns, which is
  never empty.
\<close>

definition entry_text :: "caps \<Rightarrow> string" where
  "entry_text m = strip (group m 2)"

definition entry_url :: "string \<Rightarrow> string" where
  "entry_url citation_text =
     (case search url_line_re citation_text of
        Some url_match \<Rightarrow> strip (group (fst url_match) 1)
      | None \<Rightarrow> [])"

definition entry_title :: "string \<Rightarrow> string" where
  "entry_title citation_text =
     (let title_lines = split citation_text [NL]
      in strip (replace (hd title_lines) ''URL:'' []))"

definition entry_accessed :: "string \<Rightarrow> string" where
  "entry_accessed citation_text =
     (case search accessed_re citation_text of
        Some date_match \<Rightarrow> strip (group (fst date_match) 1)
      | None \<Rightarrow> [])"

definition citation_of_match :: "caps \<Rightarrow> exn + citation" where
  "citation_of_match m =
     (case int_of_digits (group m 1) of
        Inl e \<Rightarrow> Inl e
      | Inr n \<Rightarrow>
          (let index = n;
               citation_text = entry_text m;
               url = entry_url citation_text;
               title = entry_title citation_text;
               accessed_date = entry_accessed citation_text
           in Inr \<lparr>index = index,
                   title = (if \<not> startswith title ''http'' then title else url),
                   url = (if url \<noteq> [] then url else title),
                   accessed_date = accessed_date,
                   excerpt = None\<rparr>))"

text \<open>The loop: it ends with the first exception.\<close>

fun citations_of :: "caps list \<Rightarrow> exn + citation list" where
  "citations_of [] = Inr []"
| "citations_of (m # ms) =
     (case citation_of_match m of
        Inl e \<Rightarrow> Inl e
      | Inr c \<Rightarrow> (case citations_of ms of Inl e \<Rightarrow> Inl e | Inr cs \<Rightarrow> Inr (c # cs)))"

text \<open>The fallback branch: one Citation per source, numbered from 1.\<close>

definition fallback_citations :: "string list \<Rightarrow> string \<Rightarrow> citation list" where
  "fallback_citations all_sources current_date =
     map (\<lambda>(i, source_url).
            \<lparr>index = int i, title = source_url, url = source_url,
             accessed_date = current_date, excerpt = None\<rparr>)
         (zip [1 ..< Suc (length all_sources)] all_sources)"

text \<open>
  \<open>all_sources\<close> is the parameter \<open>sources\<close> of the source, \<open>current_date\<close> what
  \<open>datetime.now().strftime('%Y-%m-%d')\<close> returns.
\<close>

definition parse_bibliography ::
  "string \<Rightarrow> string list \<Rightarrow> string \<Rightarrow> exn + citation list" where
  "parse_bibliography text all_sources current_date =
     (case search bib_re text of
        Some bib_match \<Rightarrow>
          citations_of (finditer citation_pattern (group (fst bib_match) 1))
      | None \<Rightarrow> Inr (fallback_citations all_sources current_date))"

text \<open>
  \<open>##?\s*Summary:?\s*(.+?)(?:\n##|\n\n##|$)\<close> with DOTALL and IGNORECASE. Callers pass
  a string.
\<close>

definition summary_re :: re where
  "summary_re =
     seqs [chr CHR ''#'', Opt (chr CHR ''#''), Star True space, lit_i ''Summary'',
           Opt (chr CHR '':''), Star True space, Grp 1 (plus False any_char),
           Alt (lit [NL, CHR ''#'', CHR ''#''])
             (Alt (lit [NL, NL, CHR ''#'', CHR ''#'']) Eos)]"

definition extract_summary :: "string \<Rightarrow> string" where
  "extract_summary text =
     (case search summary_re text of
        Some summary_match \<Rightarrow> strip (group (fst summary_match) 1)
      | None \<Rightarrow>
          (let paragraphs = map strip (filter (\<lambda>p. strip p \<noteq> []) (split text [NL, NL]))
           in case paragraphs of p # _ \<Rightarrow> p | [] \<Rightarrow> take 200 text))"

text \<open>
  \<open>http[s]?://(?:[a-zA-Z]|[0-9]|[$-_@.&+]|[!*\\(\\),]|(?:%[0-9a-fA-F][0-9a-fA-F]))+\<close>
  Callers pass a string here too.
\<close>

definition hex_digit :: re where
  "hex_digit =
     Atom (\<lambda>x. in_range CHR ''0'' CHR ''9'' x \<or> in_range CHR ''a'' CHR ''f'' x
               \<or> in_range CHR ''A'' CHR ''F'' x)"

definition url_pattern :: re where
  "url_pattern =
     Grp 0 (seqs [lit ''http'', Opt (chr CHR ''s''), lit ''://'',
       plus True
         (Alt (Atom (\<lambda>x. in_range CHR ''a'' CHR ''z'' x \<or> in_range CHR ''A'' CHR ''Z'' x))
         (Alt (Atom (in_range CHR ''0'' CHR ''9''))
         (Alt (Atom (\<lambda>x. in_range CHR ''$'' CHR ''_'' x \<or> x \<in> set ''@.&+''))
         (Alt (Atom (\<lambda>x. x \<in> set [CHR ''!'', CHR ''*'', CHR 0x5C, CHR ''('', CHR '')'', CHR '','']))
              (seqs [chr CHR ''%'', hex_digit, hex_digit])))))])"

definition extract_sources_from_text :: "string \<Rightarrow> string list" where
  "extract_sources_from_text text =
     (let urls = map (\<lambda>m. group m 0) (finditer url_pattern text) in list_set urls)"


section \<open>The research subagent (\<open>agents/subagent.py\<close>)\<close>

text \<open>
  What the agent executor hands back: an output that is a string, a list of content
  blocks (a dictionary with a \<open>text\<close> entry, or anything else, given by its \<open>str\<close>) or
  another object (given by its \<open>str\<close>), and the intermediate steps. A step is a tuple
  of an action and a result; \<open>Step tool result\<close> carries the action's \<open>tool\<close> attribute
  when it has one and \<open>str(result)\<close>, \<open>Short_step\<close> is a tuple of fewer than two
  elements. The executor's reasoning loop either returns or raises.
\<close>

datatype block = Text_block string | Other_block string

datatype agent_output = Out_str string | Out_blocks "block list" | Out_other string

datatype step = Step "string option" string | Short_step

datatype executor_outcome = Raises exn | Returns agent_output "step list"

definition extract_text_from_output :: "agent_output \<Rightarrow> string" where
  "extract_text_from_output output =
     (case output of
        Out_str s \<Rightarrow> s
      | Out_blocks blocks \<Rightarrow>
          join '' '' (map (\<lambda>b. case b of Text_block t \<Rightarrow> t | Other_block t \<Rightarrow> t) blocks)
      | Out_other s \<Rightarrow> s)"

definition extract_sources :: "step list \<Rightarrow> string list" where
  "extract_sources intermediate_steps =
     list_set (concat (map (\<lambda>st.
        case st of
          Step (Some tool) result \<Rightarrow>
            if contains ''search'' (lower tool) then extract_sources_from_text result else []
        | Step None result \<Rightarrow> []
        | Short_step \<Rightarrow> []) intermediate_steps))"

text \<open>\<open>##?\s*Confidence.*?:\s*(high|medium|low)\<close> with IGNORECASE and DOTALL.\<close>

definition confidence_re :: re where
  "confidence_re =
     seqs [chr CHR ''#'', Opt (chr CHR ''#''), Star True space, lit_i ''Confidence'',
           Star False any_char, chr CHR '':'', Star True space,
           Grp 1 (Alt (lit_i ''high'') (Alt (lit_i ''medium'') (lit_i ''low'')))]"

definition extract_confidence :: "string \<Rightarrow> string" where
  "extract_confidence output =
     (case search confidence_re output of
        Some confidence_match \<Rightarrow> lower (group (fst confidence_match) 1)
      | None \<Rightarrow> ''medium'')"

text \<open>
  The \<open>try\<close> block of \<open>research\<close>: \<open>Inl e\<close> when an exception leaves it. The method
  itself turns an \<open>Exception\<close> into a result; any other exception leaves the method.
\<close>

definition research_try :: "string \<Rightarrow> string \<Rightarrow> executor_outcome \<Rightarrow> exn + subagent_result" where
  "research_try self_agent_id self_task outcome =
     (case outcome of
        Raises e \<Rightarrow> Inl e
      | Returns output intermediate_steps \<Rightarrow>
          (let output_text = extract_text_from_output output;
               step_sources = extract_sources intermediate_steps;
               output_sources = extract_sources_from_text output_text;
               all = list_set (step_sources @ output_sources);
               summ = extract_summary output_text
           in Inr \<lparr>agent_id = self_agent_id, task = self_task, summary = summ,
                   findings = output_text, sources = all,
                   confidence = extract_confidence output_text\<rparr>))"

definition subagent_research ::
  "string \<Rightarrow> string \<Rightarrow> executor_outcome \<Rightarrow> exn + subagent_result" where
  "subagent_research self_agent_id self_task outcome =
     (case research_try self_agent_id self_task outcome of
        Inr result \<Rightarrow> Inr result
      | Inl (Exception m) \<Rightarrow>
          Inr \<lparr>agent_id = self_agent_id, task = self_task,
               summary = ''Research failed: '' @ m,
               findings = ''Error occurred during research: '' @ m,
               sources = [], confidence = ''low''\<rparr>
      | Inl (Base_exception c m) \<Rightarrow> Inl (Base_exception c m))"


section \<open>The citation agent (\<open>agents/citation_agent.py\<close>)\<close>

record source_meta =
  meta_url :: string
  meta_task :: string
  meta_agent_id :: string

text \<open>
  \<open>_compile_sources\<close>: the two nested loops, as folds over the results and over the
  sources of one result. The state is the list \<open>all_sources\<close> and the dictionary
  \<open>source_map\<close>.
\<close>

definition add_source ::
  "subagent_result \<Rightarrow> string list \<times> (string \<rightharpoonup> source_meta) \<Rightarrow> string \<Rightarrow>
   string list \<times> (string \<rightharpoonup> source_meta)" where
  "add_source result acc u =
     (case acc of (all_sources, source_map) \<Rightarrow>
        if u \<noteq> [] \<and> source_map u = None
        then (all_sources @ [u],
              source_map(u \<mapsto> \<lparr>meta_url = u, meta_task = task result,
                                 meta_agent_id = agent_id result\<rparr>))
        else (all_sources, source_map))"

definition compile_sources ::
  "subagent_result list \<Rightarrow> string list \<times> (string \<rightharpoonup> source_meta)" where
  "compile_sources results =
     foldl (\<lambda>acc result. foldl (add_source result) acc (sources result)) ([], Map.empty) results"

text \<open>
  \<open>add_citations\<close>. \<open>_compile_sources\<close> calls \<open>result.get\<close> on every element of the
  list, which raises an \<open>AttributeError\<close> at an exception object. The prompt sent to the
  generation service is not modelled; the service's answer \<open>reply\<close> is an input: the text
  of the response, or the exception the call raises.
\<close>

record citation_result =
  cr_cited_report :: string
  cr_bibliography :: "citation list"
  cr_source_count :: nat

definition add_citations ::
  "exn + string \<Rightarrow> string \<Rightarrow> entry list \<Rightarrow> exn + citation_result" where
  "add_citations reply current_date results =
     (case first_exception_object results of
        Some (c, m) \<Rightarrow>
          Inl (Exception ([CHR 0x27] @ c @ [CHR 0x27] @ '' object has no attribute ''
                          @ [CHR 0x27] @ ''get'' @ [CHR 0x27]))
      | None \<Rightarrow>
          (let all_sources = fst (compile_sources (results_of results))
           in case reply of
                Inl e \<Rightarrow> Inl e
              | Inr cited_document \<Rightarrow>
                  (case parse_bibliography cited_document all_sources current_date of
                     Inl e \<Rightarrow> Inl e
                   | Inr bib \<Rightarrow>
                       Inr \<lparr>cr_cited_report = cited_document,
                            cr_bibliography = bib,
                            cr_source_count = length all_sources\<rparr>)))"


section \<open>The lead researcher (\<open>agents/lead_researcher.py\<close>)\<close>

text \<open>
  \<open>create_plan\<close> and \<open>synthesize\<close>. As above the answer of the generation service is an
  input. \<open>synthesize\<close> first formats the findings, where \<open>result['task']\<close> raises a
  \<open>TypeError\<close> at an exception object, and returns the text of the response as it is.
\<close>

definition create_plan :: "exn + string \<Rightarrow> exn + research_plan" where
  "create_plan reply =
     (case reply of
        Inl e \<Rightarrow> Inl e
      | Inr content \<Rightarrow>
          (let parsed = parse_research_plan content
           in Inr \<lparr>tasks = fst parsed, rationale = snd parsed, estimated_duration = None\<rparr>))"

definition synthesize :: "exn + string \<Rightarrow> entry list \<Rightarrow> exn + string" where
  "synthesize reply results =
     (case first_exception_object results of
        Some (c, m) \<Rightarrow>
          Inl (Exception ([CHR 0x27] @ c @ [CHR 0x27] @ '' object is not subscriptable''))
      | None \<Rightarrow> reply)"


section \<open>The orchestrator (\<open>core/orchestrator.py\<close>)\<close>

text \<open>
  The progress callback is a function of the update; it returns normally (\<open>None\<close>) or
  raises. The orchestrator's steps act on the list of the updates handed to the callback
  so far and end in a value or in an exception.
\<close>

type_synonym callback = "progress_update \<Rightarrow> exn option"

type_synonym 'a action = "progress_update list \<Rightarrow> progress_update list \<times> (exn + 'a)"

definition and_then :: "'a action \<Rightarrow> ('a \<Rightarrow> 'b action) \<Rightarrow> 'b action" where
  "and_then m f log =
     (case m log of
        (log', Inl e) \<Rightarrow> (log', Inl e)
      | (log', Inr x) \<Rightarrow> f x log')"

definition await :: "exn + 'a \<Rightarrow> 'a action" where
  "await v log = (log, v)"

definition send_progress ::
  "callback \<Rightarrow> string \<Rightarrow> string \<Rightarrow> int \<Rightarrow> (string \<times> detail) list option \<Rightarrow> unit action" where
  "send_progress cb ph msg pc ds log =
     (let update = \<lparr>phase = ph, message = msg, percent = pc, details = ds\<rparr>
      in (log @ [update], case cb update of Some e \<Rightarrow> Inl e | None \<Rightarrow> Inr ()))"

subsection \<open>Running the subagents\<close>

definition agent_name :: "nat \<Rightarrow> string" where
  "agent_name i = ''subagent_'' @ str_nat i"

text \<open>
  The two updates of \<open>execute_with_progress\<close> for the subagent at \<open>index\<close> among \<open>n\<close>
  tasks. \<open>//\<close> is \<open>div\<close>.
\<close>

definition started_update :: "nat \<Rightarrow> nat \<Rightarrow> string \<Rightarrow> progress_update" where
  "started_update n i subagent_task =
     \<lparr>phase = ''subagent_started'',
      message = ''Starting research agent '' @ str_nat (i + 1) @ ''/'' @ str_nat n,
      percent = 25 + (int i * 45) div int n,
      details = Some [(''subagent_id'', DStr (agent_name i)), (''task'', DStr subagent_task)]\<rparr>"

definition finished_update :: "nat \<Rightarrow> nat \<Rightarrow> subagent_result \<Rightarrow> progress_update" where
  "finished_update n i result =
     \<lparr>phase = ''subagent_finished'',
      message = ''Completed research agent '' @ str_nat (i + 1) @ ''/'' @ str_nat n,
      percent = 25 + ((int i + 1) * 45) div int n,
      details = Some [(''subagent_id'', DStr (agent_name i)),
                      (''findings_count'', DInt (int (length (split (findings result) [NL])))),
                      (''sources_count'', DInt (int (length (sources result))))]\<rparr>"

text \<open>
  The coroutine \<open>execute_with_progress\<close> runs in two parts. The first sends the
  \<open>subagent_started\<close> update and enters \<open>subagent.research()\<close>, which waits for the
  executor. The second, once the executor has answered, finishes \<open>research\<close>, sends the
  \<open>subagent_finished\<close> update and returns the result. Either part ends the coroutine
  with an exception when the callback raises, and so does the second when \<open>research\<close>
  raises; it then sends no update.
\<close>

definition start_worker :: "callback \<Rightarrow> string list \<Rightarrow> nat \<Rightarrow> progress_update \<times> exn option" where
  "start_worker cb task_list i =
     (let update = started_update (length task_list) i (task_list ! i) in (update, cb update))"

definition finish_worker ::
  "callback \<Rightarrow> string list \<Rightarrow> (nat \<Rightarrow> executor_outcome) \<Rightarrow> nat \<Rightarrow>
   progress_update list \<times> (exn + subagent_result)" where
  "finish_worker cb task_list executor i =
     (case subagent_research (agent_name i) (task_list ! i) (executor i) of
        Inl e \<Rightarrow> ([], Inl e)
      | Inr result \<Rightarrow>
          (let update = finished_update (length task_list) i result
           in ([update], case cb update of Some e \<Rightarrow> Inl e | None \<Rightarrow> Inr result)))"

datatype worker = Pending | Awaiting | Settled "exn + subagent_result"

text \<open>
  The event loop resumes one coroutine at a time. \<open>resume\<close> runs the next part of
  worker \<open>i\<close> and yields the updates it sent; \<open>settle\<close> runs a worker to its end.
\<close>

definition resume ::
  "callback \<Rightarrow> string list \<Rightarrow> (nat \<Rightarrow> executor_outcome) \<Rightarrow> nat \<Rightarrow> worker \<Rightarrow>
   progress_update list \<times> worker" where
  "resume cb task_list executor i w =
     (case w of
        Pending \<Rightarrow>
          (case start_worker cb task_list i of
             (u, Some e) \<Rightarrow> ([u], Settled (Inl e))
           | (u, None) \<Rightarrow> ([u], Awaiting))
      | Awaiting \<Rightarrow>
          (case finish_worker cb task_list executor i of (us, x) \<Rightarrow> (us, Settled x))
      | Settled x \<Rightarrow> ([], Settled x))"

definition settle ::
  "callback \<Rightarrow> string list \<Rightarrow> (nat \<Rightarrow> executor_outcome) \<Rightarrow> nat \<Rightarrow> worker \<Rightarrow>
   progress_update list \<times> (exn + subagent_result)" where
  "settle cb task_list executor i w =
     (case w of
        Pending \<Rightarrow>
          (case start_worker cb task_list i of
             (u, Some e) \<Rightarrow> ([u], Inl e)
           | (u, None) \<Rightarrow>
               (case finish_worker cb task_list executor i of (us, x) \<Rightarrow> (u # us, x)))
      | Awaiting \<Rightarrow> finish_worker cb task_list executor i
      | Settled x \<Rightarrow> ([], x))"

text \<open>
  A schedule is the order in which the event loop resumes the workers, given by their
  indices: the first occurrence of \<open>i\<close> starts worker \<open>i\<close>, the second completes it, so
  the order of the second occurrences is the completion order. Indices that name no
  worker and resumptions of a settled worker do nothing.
\<close>

fun run_schedule ::
  "callback \<Rightarrow> string list \<Rightarrow> (nat \<Rightarrow> executor_outcome) \<Rightarrow> nat list \<Rightarrow>
   progress_update list \<times> worker list \<Rightarrow> progress_update list \<times> worker list" where
  "run_schedule cb task_list executor [] st = st"
| "run_schedule cb task_list executor (i # rest) st =
     (if i < length (snd st)
      then (case resume cb task_list executor i (snd st ! i) of
              (us, w) \<Rightarrow>
                run_schedule cb task_list executor rest (fst st @ us, (snd st)[i := w]))
      else run_schedule cb task_list executor rest st)"

text \<open>
  \<open>asyncio.gather(..., return_exceptions=True)\<close>: one coroutine per task, resumed as
  the schedule says; \<open>await\<close> returns only when every coroutine has ended, so the
  workers the schedule has left unfinished are run to their end, in task order. The
  outcomes are listed in the order of the coroutines.
\<close>

definition gather ::
  "callback \<Rightarrow> string list \<Rightarrow> (nat \<Rightarrow> executor_outcome) \<Rightarrow> nat list \<Rightarrow>
   progress_update list \<Rightarrow> progress_update list \<times> (exn + subagent_result) list" where
  "gather cb task_list executor sched log =
     (case run_schedule cb task_list executor sched (log, replicate (length task_list) Pending) of
        (log', ws) \<Rightarrow>
          (let ended = map (\<lambda>(i, w). settle cb task_list executor i w) (zip [0 ..< length ws] ws)
           in (log' @ concat (map fst ended), map snd ended)))"

text \<open>
  The loop over \<open>enumerate(results)\<close>: an instance of \<open>Exception\<close> is replaced by an
  error result; any other exception object fails the \<open>isinstance\<close> test and is
  appended as it is.
\<close>

definition valid_results :: "string list \<Rightarrow> (exn + subagent_result) list \<Rightarrow> entry list" where
  "valid_results task_list results =
     map (\<lambda>(i, result).
            case result of
              Inl (Exception m) \<Rightarrow>
                Result \<lparr>agent_id = agent_name i, task = task_list ! i,
                        summary = ''Failed: '' @ m,
                        findings = ''Error: '' @ m,
                        sources = [], confidence = ''low''\<rparr>
            | Inl (Base_exception c m) \<Rightarrow> Exception_object c m
            | Inr r \<Rightarrow> Result r)
         (zip [0 ..< length results] results)"

text \<open>
  The list comprehension that creates the subagents, before \<open>gather\<close> and outside any
  \<open>try\<close>. \<open>ResearchSubagent.__init__\<close> puts the task into the system prompt and hands
  the text to \<open>ChatPromptTemplate.from_messages\<close>, which parses it as a template and
  raises for a text it rejects (a task with an unmatched brace, for one).
  \<open>template_error t\<close> is the exception the constructor raises for the task \<open>t\<close>, if any;
  the first one ends the comprehension.
\<close>

fun create_subagents :: "(string \<Rightarrow> exn option) \<Rightarrow> string list \<Rightarrow> exn option" where
  "create_subagents template_error [] = None"
| "create_subagents template_error (t # ts) =
     (case template_error t of
        Some e \<Rightarrow> Some e
      | None \<Rightarrow> create_subagents template_error ts)"

definition execute_subagents_parallel ::
  "callback \<Rightarrow> (string \<Rightarrow> exn option) \<Rightarrow> string list \<Rightarrow> (nat \<Rightarrow> executor_outcome) \<Rightarrow>
   nat list \<Rightarrow> entry list action" where
  "execute_subagents_parallel cb template_error task_list executor sched log =
     (case create_subagents template_error task_list of
        Some e \<Rightarrow> (log, Inl e)
      | None \<Rightarrow>
          (case gather cb task_list executor sched log of
             (log', results) \<Rightarrow> (log', Inr (valid_results task_list results))))"

subsection \<open>The research workflow\<close>

text \<open>
  What the collaborators of one run answer: the replies of the generation service to the
  plan, synthesis and citation requests, the exception of the prompt template parser for
  a task, the outcome of each subagent's executor, the schedule of the event loop, the
  current date and the measured duration (in hundredths of a second).
\<close>

record environment =
  env_plan_reply :: "exn + string"
  env_template_error :: "string \<Rightarrow> exn option"
  env_executor :: "nat \<Rightarrow> executor_outcome"
  env_schedule :: "nat list"
  env_synthesis_reply :: "exn + string"
  env_citation_reply :: "exn + string"
  env_current_date :: string
  env_duration :: int

text \<open>The lines under the comment \<open>Enforce max_subagents limit\<close>.\<close>

definition enforce_max_subagents :: "settings \<Rightarrow> research_plan \<Rightarrow> research_plan" where
  "enforce_max_subagents st p =
     (if int (length (tasks p)) > max_subagents st
      then p\<lparr>tasks := slice_to (tasks p) (max_subagents st)\<rparr>
      else p)"

text \<open>
  The \<open>try\<close> block of \<open>research\<close>. When \<open>synthesize\<close> has returned, every element of
  \<open>results\<close> is a dictionary, so \<open>results_of results\<close> is the whole list.
\<close>

definition research_steps :: "callback \<Rightarrow> settings \<Rightarrow> environment \<Rightarrow> string \<Rightarrow> research_result action" where
  "research_steps cb st env q =
     and_then (send_progress cb ''planning''
                 ''Analyzing query and creating research plan...'' 10 None) (\<lambda>_.
     and_then (await (create_plan (env_plan_reply env))) (\<lambda>created.
     let p = enforce_max_subagents st created in
     and_then (send_progress cb ''planning_complete''
                 (''Plan created: '' @ str_nat (length (tasks p)) @ '' research tasks identified'')
                 20 (Some [(''tasks'', DList (tasks p)), (''rationale'', DStr (rationale p))])) (\<lambda>_.
     and_then (send_progress cb ''subagent_research''
                 (''Spawning '' @ str_nat (length (tasks p)) @ '' research agents...'')
                 25 None) (\<lambda>_.
     and_then (execute_subagents_parallel cb (env_template_error env) (tasks p)
                 (env_executor env) (env_schedule env))
       (\<lambda>results.
     and_then (send_progress cb ''subagent_complete'' ''All research agents completed''
                 70 None) (\<lambda>_.
     and_then (send_progress cb ''synthesis''
                 ''Synthesizing findings into comprehensive report...'' 75 None) (\<lambda>_.
     and_then (await (synthesize (env_synthesis_reply env) results)) (\<lambda>synth.
     and_then (send_progress cb ''citation''
                 ''Adding citations and creating bibliography...'' 90 None) (\<lambda>_.
     and_then (await (add_citations (env_citation_reply env) (env_current_date env) results))
       (\<lambda>cited.
     let result =
       \<lparr>query = q, plan = p, subagent_results = results_of results, synthesis = synth,
        cited_report = cr_cited_report cited, bibliography = cr_bibliography cited,
        metadata = \<lparr>subagents_count = length (tasks p),
                    sources_count = cr_source_count cited,
                    duration_seconds = env_duration env\<rparr>\<rparr> in
     and_then (send_progress cb ''complete'' ''Research complete!'' 100 None) (\<lambda>_.
     await (Inr result))))))))))))"

text \<open>
  \<open>research\<close>: the \<open>try\<close> block, and the handler for an \<open>Exception\<close>, which sends the
  \<open>error\<close> update and raises the exception again.
\<close>

definition research ::
  "callback \<Rightarrow> settings \<Rightarrow> environment \<Rightarrow> string \<Rightarrow>
   progress_update list \<times> (exn + research_result)" where
  "research cb st env q =
     (case research_steps cb st env q [] of
        (log, Inr result) \<Rightarrow> (log, Inr result)
      | (log, Inl (Exception m)) \<Rightarrow>
          (case send_progress cb ''error'' (''Research failed: '' @ m) 0 None log of
             (log', Inl e') \<Rightarrow> (log', Inl e')
           | (log', Inr _) \<Rightarrow> (log', Inl (Exception m)))
      | (log, Inl (Base_exception c m)) \<Rightarrow> (log, Inl (Base_exception c m)))"


section \<open>Notions used in the statements\<close>



text \<open>
  A callback that never raises; an executor that fails for the first task only; one
  whose reasoning loop is cancelled; one whose workers all report the same url.
\<close>

definition quiet :: callback where
  "quiet u = None"




text \<open>
  The prompt template parser in the runs below: it rejects the system prompt built from
  the task \<open>{a and b\<close>, whose brace is never closed (a \<open>ValueError\<close> of Python's
  formatter), and accepts the prompts of the other tasks of these runs, which have no
  brace.
\<close>

definition template_error_of :: "string \<Rightarrow> exn option" where
  "template_error_of t =
     (if t = ''{a and b''
      then Some (Exception (''unmatched '' @ [CHR 0x27] @ ''{'' @ [CHR 0x27] @ '' in format spec''))
      else None)"



text \<open>Two results of two workers that report a url in common.\<close>

definition two_reports :: "subagent_result list" where
  "two_reports =
     [\<lparr>agent_id = ''subagent_0'', task = ''A'', summary = ''s'', findings = ''f'',
       sources = [''http://y.com'', ''http://x.com''], confidence = ''high''\<rparr>,
      \<lparr>agent_id = ''subagent_1'', task = ''B'', summary = ''s'', findings = ''f'',
       sources = [''http://x.com''], confidence = ''medium''\<rparr>]"

text \<open>
  A citation response whose bibliography has two entries in the format the citation
  prompt asks for.
\<close>

definition two_entries :: string where
  "two_entries =
     ''Bibliography:\<newline>[1] Alpha\<newline>    URL: http://a.com\<newline>    Accessed: 2024-01-01\<newline>[2] Beta\<newline>    URL: http://b.com\<newline>    Accessed: 2024-01-02''"


text \<open>
  Two runs: three tasks whose workers all start before the first one finishes; the same
  with no task in the plan reply.
\<close>

definition overlapping_env :: environment where
  "overlapping_env =
     \<lparr>env_plan_reply = Inr ''<task>A</task><task>B</task><task>C</task>'',
      env_template_error = template_error_of,
      env_executor = (\<lambda>i. Returns (Out_str ''Done.'') []),
      env_schedule = [0, 1, 2, 0, 1, 2],
      env_synthesis_reply = Inr ''Report.'',
      env_citation_reply = Inr ''Report.'',
      env_current_date = ''2025-01-01'',
      env_duration = 100\<rparr>"



text \<open>
  The declarative reading of a pattern: \<open>reach r s\<close> is the set of the texts that can
  remain unread when \<open>r\<close> has matched at the start of \<open>s\<close>. An iteration of a
  repetition reads at least one character. The matcher finds a match exactly when there
  is one in this sense (lemmas \<open>rmatch_sound\<close> and \<open>rmatch_complete\<close> below).
\<close>

primrec reach :: "re \<Rightarrow> string \<Rightarrow> string set" where
  "reach (Atom p) s = (case s of [] \<Rightarrow> {} | c # cs \<Rightarrow> if p c then {cs} else {})"
| "reach Eps s = {s}"
| "reach Eos s = (if s = [] \<or> s = [NL] then {s} else {})"
| "reach (Seq a b) s = (\<Union>t \<in> reach a s. reach b t)"
| "reach (Alt a b) s = reach a s \<union> reach b s"
| "reach (Opt a) s = reach a s \<union> {s}"
| "reach (Star g a) s = {t. (s, t) \<in> {(x, y). y \<in> reach a x \<and> length y < length x}\<^sup>*}"
| "reach (Grp n a) s = reach a s"

text \<open>A continuation whose success does not depend on the groups captured so far.\<close>

definition indep :: "(mstate \<Rightarrow> mstate option) \<Rightarrow> bool" where
  "indep k = (\<forall>g g' s. (k (g, s) = None) = (k (g', s) = None))"

text \<open>
  The texts the bibliography patterns are about. A heading is one of the words
  \<open>Bibliography\<close>, \<open>Sources\<close>, \<open>References\<close> in any letter case, possibly followed by a
  colon, then white space up to and including a newline. A text has a heading when one
  occurs anywhere in it (also inside a longer word) with more text after it. A numbered
  entry is a text that begins with a number in square brackets and goes on after it.
\<close>

definition heading :: "string \<Rightarrow> bool" where
  "heading h =
     (\<exists>w colon ws. h = w @ colon @ ws @ [NL] \<and>
        lower w \<in> {''bibliography'', ''sources'', ''references''} \<and>
        (colon = [] \<or> colon = '':'') \<and> (\<forall>c \<in> set ws. isspace c))"

definition has_heading :: "string \<Rightarrow> bool" where
  "has_heading text = (\<exists>pre h more. text = pre @ h @ more \<and> heading h \<and> more \<noteq> [])"

definition numbered_entry :: "string \<Rightarrow> bool" where
  "numbered_entry e =
     (\<exists>ds x. e = ''['' @ ds @ '']'' @ x \<and> ds \<noteq> [] \<and> (\<forall>c \<in> set ds. isdigit c) \<and> x \<noteq> [])"

definition has_entry :: "string \<Rightarrow> bool" where
  "has_entry s = (\<exists>pre e. s = pre @ e \<and> numbered_entry e)"

definition heading_then_entry :: "string \<Rightarrow> bool" where
  "heading_then_entry text =
     (\<exists>pre h more. text = pre @ h @ more \<and> heading h \<and> has_entry more)"

text \<open>The \<open>ValueError\<close> of \<open>int\<close> for a string of \<open>n\<close> digits, \<open>n\<close> over the limit.\<close>

definition digits_error :: "nat \<Rightarrow> exn" where
  "digits_error n =
     Exception (''Exceeds the limit (4300 digits) for integer string conversion: value has ''
                @ str_nat n
                @ '' digits; use sys.set_int_max_str_digits() to increase the limit'')"


section \<open>The matcher\<close>

lemma indepD: "indep k \<Longrightarrow> (k (g, s) = None) = (k ([], s) = None)"
  unfolding indep_def by blast

lemma indepD2: "indep k \<Longrightarrow> (k (g, s) = None) = (k (g', s) = None)"
  unfolding indep_def by blast

lemma star_sound:
  assumes f: "\<And>k g s x. f k (g, s) = Some x \<Longrightarrow> \<exists>g' t. t \<in> reach a s \<and> k (g', t) = Some x"
    and "star gr f k n (g, s) = Some x"
  shows "\<exists>g' t. t \<in> reach (Star gr a) s \<and> k (g', t) = Some x"
  using assms(2)
proof (induction n arbitrary: g s)
  case 0
  then show ?case by auto
next
  case (Suc n)
  let ?k' = "\<lambda>st'. if length (snd st') < length s then star gr f k n st' else None"
  from Suc.prems have "f ?k' (g, s) = Some x \<or> k (g, s) = Some x"
    by (auto split: if_splits option.splits)
  then show ?case
  proof
    assume "k (g, s) = Some x"
    then show ?thesis by auto
  next
    assume "f ?k' (g, s) = Some x"
    from f [OF this] obtain g' t where t: "t \<in> reach a s" and k': "?k' (g', t) = Some x"
      by blast
    from k' have len: "length t < length s" and "star gr f k n (g', t) = Some x"
      by (auto split: if_splits)
    from Suc.IH [OF this(2)] obtain g'' u
      where u: "u \<in> reach (Star gr a) t" and "k (g'', u) = Some x" by blast
    moreover from t len u have "u \<in> reach (Star gr a) s"
      by (auto intro: converse_rtrancl_into_rtrancl)
    ultimately show ?thesis by blast
  qed
qed

lemma rmatch_sound:
  "rmatch r k (g, s) = Some x \<Longrightarrow> \<exists>g' t. t \<in> reach r s \<and> k (g', t) = Some x"
proof (induction r arbitrary: k g s x)
  case (Atom p)
  then show ?case by (cases s) (auto split: if_splits)
next
  case Eps
  then show ?case by auto
next
  case Eos
  then show ?case by (auto split: if_splits)
next
  case (Seq a b)
  from Seq.prems have "rmatch a (rmatch b k) (g, s) = Some x" by simp
  from Seq.IH(1) [OF this] obtain g' t where "t \<in> reach a s" "rmatch b k (g', t) = Some x"
    by blast
  with Seq.IH(2) [of k g' t] show ?case by auto
next
  case (Alt a b)
  from Alt.prems have "rmatch a k (g, s) = Some x \<or> rmatch b k (g, s) = Some x"
    by (auto split: option.splits)
  with Alt.IH(1) [of k g s x] Alt.IH(2) [of k g s x] show ?case
    by auto
next
  case (Opt a)
  from Opt.prems have "rmatch a k (g, s) = Some x \<or> k (g, s) = Some x"
    by (auto split: option.splits)
  with Opt.IH [of k g s x] show ?case
    by auto
next
  case (Star gr a)
  from Star.prems have "star gr (rmatch a) k (length s) (g, s) = Some x" by simp
  from star_sound [of "rmatch a" a, OF Star.IH this] show ?case .
next
  case (Grp n a)
  let ?k' = "\<lambda>st'. k ((n, take (length s - length (snd st')) s) # fst st', snd st')"
  from Grp.prems have "rmatch a ?k' (g, s) = Some x" by simp
  from Grp.IH [OF this] obtain g' t where "t \<in> reach a s" "?k' (g', t) = Some x"
    by blast
  then show ?case by auto
qed

lemma reach_star_Nil: "reach (Star gr a) [] = {[]}"
  by (auto elim: converse_rtranclE)

lemma star_complete:
  assumes f: "\<And>k g s. indep k \<Longrightarrow>
               (f k (g, s) = None) = (\<forall>t \<in> reach a s. k ([], t) = None)"
    and k: "indep k" and "length s \<le> n"
  shows "(star gr f k n (g, s) = None) = (\<forall>t \<in> reach (Star gr a) s. k ([], t) = None)"
  using assms(3)
proof (induction n arbitrary: g s)
  case 0
  then have "s = []" by simp
  with indepD [OF k, of g "[]"] show ?case by (simp add: reach_star_Nil del: reach.simps)
next
  case (Suc n)
  let ?k' = "\<lambda>st'. if length (snd st') < length s then star gr f k n st' else None"
  let ?R = "{(x, y). y \<in> reach a x \<and> length y < length x}"
  have ih: "(star gr f k n (g', t) = None) = (\<forall>u \<in> reach (Star gr a) t. k ([], u) = None)"
    if "length t < length s" for g' t
    using Suc.IH [of t g'] Suc.prems that by simp
  have ind: "indep ?k'"
    unfolding indep_def by (auto simp: ih simp del: reach.simps)
  have step: "(f ?k' (g, s) = None) =
      (\<forall>t \<in> reach a s. length t < length s \<longrightarrow> (\<forall>u \<in> reach (Star gr a) t. k ([], u) = None))"
    unfolding f [OF ind, of g s] by (auto simp: ih simp del: reach.simps)
  have here: "(k (g, s) = None) = (k ([], s) = None)"
    using indepD [OF k, of g s] by simp
  have "(star gr f k (Suc n) (g, s) = None) = (f ?k' (g, s) = None \<and> k (g, s) = None)"
    by (auto split: option.splits)
  also have "\<dots> = (\<forall>t \<in> reach (Star gr a) s. k ([], t) = None)"
  proof
    assume a: "f ?k' (g, s) = None \<and> k (g, s) = None"
    show "\<forall>t \<in> reach (Star gr a) s. k ([], t) = None"
    proof
      fix u assume "u \<in> reach (Star gr a) s"
      then have "(s, u) \<in> ?R\<^sup>*" by simp
      then show "k ([], u) = None"
      proof (cases rule: converse_rtranclE)
        case base
        with a here show ?thesis by simp
      next
        case (step t)
        then have "t \<in> reach a s" "length t < length s" "u \<in> reach (Star gr a) t"
          by simp_all
        with a show ?thesis unfolding \<open>(f ?k' (g, s) = None) = _\<close> by blast
      qed
    qed
  next
    assume a: "\<forall>t \<in> reach (Star gr a) s. k ([], t) = None"
    have "s \<in> reach (Star gr a) s" by simp
    with a have "k ([], s) = None" by (rule bspec)
    with here have "k (g, s) = None" by simp
    moreover have "f ?k' (g, s) = None"
      unfolding step
    proof (intro ballI impI)
      fix t u assume "t \<in> reach a s" "length t < length s" "u \<in> reach (Star gr a) t"
      then have "u \<in> reach (Star gr a) s"
        by (auto intro: converse_rtrancl_into_rtrancl)
      with a show "k ([], u) = None" by blast
    qed
    ultimately show "f ?k' (g, s) = None \<and> k (g, s) = None" by simp
  qed
  finally show ?case .
qed

lemma rmatch_complete:
  "indep k \<Longrightarrow> (rmatch r k (g, s) = None) = (\<forall>t \<in> reach r s. k ([], t) = None)"
proof (induction r arbitrary: k g s)
  case (Atom p)
  show ?case
  proof (cases s)
    case Nil
    then show ?thesis by simp
  next
    case (Cons c cs)
    with indepD [OF Atom, of g cs] show ?thesis by simp
  qed
next
  case Eps
  with indepD [OF Eps, of g s] show ?case by simp
next
  case Eos
  with indepD [OF Eos, of g s] show ?case by simp
next
  case (Seq a b)
  have "indep (rmatch b k)"
    unfolding indep_def using Seq.IH(2) [OF Seq.prems] by simp
  from Seq.IH(1) [OF this, of g s] Seq.IH(2) [OF Seq.prems] show ?case by simp
next
  case (Alt a b)
  have "(rmatch (Alt a b) k (g, s) = None) =
        (rmatch a k (g, s) = None \<and> rmatch b k (g, s) = None)"
    by (simp split: option.splits)
  with Alt.IH(1) [OF Alt.prems, of g s] Alt.IH(2) [OF Alt.prems, of g s] show ?case
    by auto
next
  case (Opt a)
  have "(rmatch (Opt a) k (g, s) = None) =
        (rmatch a k (g, s) = None \<and> k (g, s) = None)"
    by (simp split: option.splits)
  with Opt.IH [OF Opt.prems, of g s] indepD [OF Opt.prems, of g s] show ?case
    by auto
next
  case (Star gr a)
  from star_complete [of "rmatch a" a k s "length s" gr g, OF Star.IH Star.prems]
  show ?case by simp
next
  case (Grp n a)
  let ?k' = "\<lambda>st'. k ((n, take (length s - length (snd st')) s) # fst st', snd st')"
  have ind: "indep ?k'"
    unfolding indep_def
  proof (intro allI)
    fix g1 g2 t
    show "(?k' (g1, t) = None) = (?k' (g2, t) = None)"
      using indepD2 [OF Grp.prems, of "(n, take (length s - length t) s) # g1" t
          "(n, take (length s - length t) s) # g2"]
      by simp
  qed
  have "(?k' ([], t) = None) = (k ([], t) = None)" for t
    using indepD2 [OF Grp.prems, of "[(n, take (length s - length t) s)]" t "[]"] by simp
  with Grp.IH [OF ind, of g s] show ?case
    by simp
qed

lemma indep_Some: "indep Some"
  by (simp add: indep_def)

lemma rmatch_None: "(rmatch r Some (g, s) = None) = (reach r s = {})"
  using rmatch_complete [OF indep_Some, of r g s] by auto



lemma search_None_iff:
  "(search r s = None) = (\<forall>pre t. s = pre @ t \<longrightarrow> rmatch r Some ([], t) = None)"
proof (induction s)
  case Nil
  then show ?case by simp
next
  case (Cons c cs)
  have "(\<forall>pre t. c # cs = pre @ t \<longrightarrow> rmatch r Some ([], t) = None) =
        (rmatch r Some ([], c # cs) = None \<and>
         (\<forall>pre t. cs = pre @ t \<longrightarrow> rmatch r Some ([], t) = None))"
    by (auto simp: Cons_eq_append_conv)
  with Cons show ?case by (simp split: option.splits)
qed

lemma search_SomeD:
  "search r s = Some x \<Longrightarrow>
     \<exists>pre t. s = pre @ t \<and> rmatch r Some ([], t) = Some x \<and>
             (\<forall>pre' t'. s = pre' @ t' \<and> length pre' < length pre \<longrightarrow>
                rmatch r Some ([], t') = None)"
proof (induction s)
  case Nil
  then show ?case by simp
next
  case (Cons c cs)
  show ?case
  proof (cases "rmatch r Some ([], c # cs)")
    case (Some y)
    with Cons.prems have "rmatch r Some ([], c # cs) = Some x" by simp
    then show ?thesis by (intro exI [of _ "[]"] exI [of _ "c # cs"]) simp
  next
    case None
    with Cons.prems have "search r cs = Some x" by simp
    from Cons.IH [OF this] obtain pre t where
      s: "cs = pre @ t" and m: "rmatch r Some ([], t) = Some x"
      and l: "\<forall>pre' t'. cs = pre' @ t' \<and> length pre' < length pre \<longrightarrow>
                rmatch r Some ([], t') = None"
      by blast
    have "rmatch r Some ([], t') = None"
      if "c # cs = pre' @ t'" "length pre' < length (c # pre)" for pre' t'
    proof (cases pre')
      case Nil
      with that None show ?thesis by simp
    next
      case (Cons d ds)
      with that l show ?thesis by auto
    qed
    with s m show ?thesis
      by (intro exI [of _ "c # pre"] exI [of _ t]) simp
  qed
qed

lemma finditer_Nil_iff: "(finditer r s = []) = (search r s = None)"
  by (induction s) (auto split: option.splits)


lemma reach_chr: "(t \<in> reach (chr c) s) = (s = c # t)"
  by (cases s) (auto simp: chr_def)

lemma reach_chr_i: "(t \<in> reach (chr_i c) s) = (\<exists>d. s = d # t \<and> lower_char d = lower_char c)"
  by (cases s) (auto simp: chr_i_def)


lemma reach_lit_i: "(t \<in> reach (lit_i w) s) = (\<exists>x. s = x @ t \<and> lower x = lower w)"
proof (induction w arbitrary: s)
  case Nil
  then show ?case by (auto simp: lower_def)
next
  case (Cons c w)
  show ?case
  proof
    assume "t \<in> reach (lit_i (c # w)) s"
    then obtain d u where "s = d # u" "lower_char d = lower_char c" "t \<in> reach (lit_i w) u"
      by (auto simp: reach_chr_i)
    with Cons [of u] obtain x where "u = x @ t" "lower x = lower w" by auto
    with \<open>s = d # u\<close> \<open>lower_char d = lower_char c\<close> show "\<exists>x. s = x @ t \<and> lower x = lower (c # w)"
      by (intro exI [of _ "d # x"]) (simp add: lower_def)
  next
    assume "\<exists>x. s = x @ t \<and> lower x = lower (c # w)"
    then obtain x where x: "s = x @ t" "lower x = lower (c # w)" by blast
    then obtain d y where "x = d # y" "lower_char d = lower_char c" "lower y = lower w"
      by (cases x) (auto simp: lower_def)
    with x Cons [of "y @ t"] show "t \<in> reach (lit_i (c # w)) s"
      by (auto simp: reach_chr_i)
  qed
qed

lemma reach_star_atom:
  "(t \<in> reach (Star g (Atom p)) s) = (\<exists>x. s = x @ t \<and> (\<forall>c \<in> set x. p c))"
proof
  let ?R = "{(x, y). y \<in> reach (Atom p) x \<and> length y < length x}"
  assume "t \<in> reach (Star g (Atom p)) s"
  then have "(s, t) \<in> ?R\<^sup>*" by simp
  then show "\<exists>x. s = x @ t \<and> (\<forall>c \<in> set x. p c)"
  proof (induction rule: converse_rtrancl_induct)
    case base
    then show ?case by (intro exI [of _ "[]"]) simp
  next
    case (step y z)
    then obtain x where x: "z = x @ t" "\<forall>c \<in> set x. p c" by blast
    from step(1) obtain c where "y = c # z" "p c"
      by (cases y) (auto split: if_splits)
    with x show ?case by (intro exI [of _ "c # x"]) simp
  qed
next
  let ?R = "{(x, y). y \<in> reach (Atom p) x \<and> length y < length x}"
  assume "\<exists>x. s = x @ t \<and> (\<forall>c \<in> set x. p c)"
  then obtain x where "s = x @ t" "\<forall>c \<in> set x. p c" by blast
  then have "(s, t) \<in> ?R\<^sup>*"
  proof (induction x arbitrary: s)
    case Nil
    then show ?case by simp
  next
    case (Cons c x)
    then have "(x @ t, t) \<in> ?R\<^sup>*" by simp
    moreover from Cons.prems have "(s, x @ t) \<in> ?R" by simp
    ultimately show ?case by (rule converse_rtrancl_into_rtrancl [rotated])
  qed
  then show "t \<in> reach (Star g (Atom p)) s" by simp
qed

lemma reach_SeqI: "u \<in> reach a s \<Longrightarrow> t \<in> reach b u \<Longrightarrow> t \<in> reach (Seq a b) s"
  by auto

lemma reach_SeqE:
  assumes "t \<in> reach (Seq a b) s"
  obtains u where "u \<in> reach a s" "t \<in> reach b u"
  using assms by auto

lemma reach_plus_atom:
  "(t \<in> reach (plus g (Atom p)) s) = (\<exists>x. s = x @ t \<and> x \<noteq> [] \<and> (\<forall>c \<in> set x. p c))"
proof
  assume "t \<in> reach (plus g (Atom p)) s"
  then have "t \<in> reach (Seq (Atom p) (Star g (Atom p))) s"
    by (simp only: plus_def)
  then obtain u where u: "u \<in> reach (Atom p) s" "t \<in> reach (Star g (Atom p)) u"
    by (rule reach_SeqE)
  from u(1) obtain c where "s = c # u" "p c"
    by (cases s) (auto split: if_splits)
  moreover from u(2) obtain x where "u = x @ t" "\<forall>c \<in> set x. p c"
    unfolding reach_star_atom by blast
  ultimately show "\<exists>x. s = x @ t \<and> x \<noteq> [] \<and> (\<forall>c \<in> set x. p c)"
    by (intro exI [of _ "c # x"]) simp
next
  assume "\<exists>x. s = x @ t \<and> x \<noteq> [] \<and> (\<forall>c \<in> set x. p c)"
  then obtain c x where "s = (c # x) @ t" "p c" "\<forall>c \<in> set x. p c"
    by (metis list.exhaust list.set_intros(1) list.set_intros(2))
  then have "x @ t \<in> reach (Atom p) s" "t \<in> reach (Star g (Atom p)) (x @ t)"
    unfolding reach_star_atom by auto
  then have "t \<in> reach (Seq (Atom p) (Star g (Atom p))) s"
    by (rule reach_SeqI)
  then show "t \<in> reach (plus g (Atom p)) s"
    by (simp only: plus_def)
qed

lemma lower_keywords:
  "lower ''Bibliography'' = ''bibliography''" "lower ''Sources'' = ''sources''"
  "lower ''References'' = ''references''"
  by code_simp+

lemma reach_keyword:
  "(u \<in> reach (Alt (lit_i ''Bibliography'') (Alt (lit_i ''Sources'') (lit_i ''References''))) t) =
     (\<exists>w. t = w @ u \<and> lower w \<in> {''bibliography'', ''sources'', ''references''})"
  unfolding reach.simps(5) Un_iff reach_lit_i lower_keywords by blast

lemma reach_opt_chr: "(u \<in> reach (Opt (chr c)) t) = (\<exists>x. t = x @ u \<and> (x = [] \<or> x = [c]))"
  unfolding reach.simps(6) Un_iff reach_chr by auto

lemma reach_bib_re:
  "(reach bib_re t \<noteq> {}) = (\<exists>h more. t = h @ more \<and> heading h \<and> more \<noteq> [])"
proof
  assume "reach bib_re t \<noteq> {}"
  then obtain u where "u \<in> reach bib_re t" by blast
  then obtain t1 t2 t3 t4 where
    "t1 \<in> reach (Alt (lit_i ''Bibliography'') (Alt (lit_i ''Sources'') (lit_i ''References''))) t"
    "t2 \<in> reach (Opt (chr CHR '':'')) t1" "t3 \<in> reach (Star True (Atom isspace)) t2"
    "t4 \<in> reach (chr NL) t3" "u \<in> reach (plus True (Atom (\<lambda>x. True))) t4"
    unfolding bib_re_def seqs.simps space_def any_char_def
    by (elim reach_SeqE) (simp only: reach.simps(2,8) singleton_iff)
  then obtain w colon ws x where "t = w @ t1" "t1 = colon @ t2" "t2 = ws @ t3" "t3 = NL # t4"
    "t4 = x @ u" "lower w \<in> {''bibliography'', ''sources'', ''references''}"
    "colon = [] \<or> colon = '':''" "\<forall>c \<in> set ws. isspace c" "x \<noteq> []"
    unfolding reach_keyword reach_opt_chr reach_star_atom reach_chr reach_plus_atom by blast
  then show "\<exists>h more. t = h @ more \<and> heading h \<and> more \<noteq> []"
    by (intro exI [of _ "w @ colon @ ws @ [NL]"] exI [of _ "x @ u"]) (auto simp: heading_def)
next
  assume "\<exists>h more. t = h @ more \<and> heading h \<and> more \<noteq> []"
  then obtain h more where h: "t = h @ more" "heading h" and m: "more \<noteq> []"
    by blast
  from h(2) obtain w colon ws where h': "h = w @ colon @ ws @ [NL]"
    and w: "lower w \<in> {''bibliography'', ''sources'', ''references''}"
    and c: "colon = [] \<or> colon = '':''" and ws: "\<forall>c \<in> set ws. isspace c"
    unfolding heading_def by blast
  from h(1) h' have t: "t = w @ colon @ ws @ [NL] @ more"
    by simp
  have 1: "colon @ ws @ [NL] @ more \<in>
      reach (Alt (lit_i ''Bibliography'') (Alt (lit_i ''Sources'') (lit_i ''References''))) t"
    unfolding reach_keyword using t w by blast
  have 2: "ws @ [NL] @ more \<in> reach (Opt (chr CHR '':'')) (colon @ ws @ [NL] @ more)"
    unfolding reach_opt_chr using c by auto
  have 3: "[NL] @ more \<in> reach (Star True (Atom isspace)) (ws @ [NL] @ more)"
    unfolding reach_star_atom using ws by blast
  have 4: "more \<in> reach (chr NL) ([NL] @ more)"
    unfolding reach_chr by simp
  have 5: "[] \<in> reach (Grp 1 (plus True (Atom (\<lambda>x. True)))) more"
    unfolding reach.simps(8) reach_plus_atom using m by simp
  have 6: "[] \<in> reach Eps []"
    by simp
  have "[] \<in> reach bib_re t"
    unfolding bib_re_def seqs.simps space_def any_char_def
    by (intro reach_SeqI [OF 1] reach_SeqI [OF 2] reach_SeqI [OF 3] reach_SeqI [OF 4]
          reach_SeqI [OF 5]) (rule 6)
  then show "reach bib_re t \<noteq> {}" by blast
qed

lemma search_bib_None: "(search bib_re text = None) = (\<not> has_heading text)"
  unfolding search_None_iff rmatch_None has_heading_def
  using reach_bib_re by blast

lemma reach_citation_pattern: "(reach citation_pattern t \<noteq> {}) = numbered_entry t"
proof
  assume "reach citation_pattern t \<noteq> {}"
  then obtain u where "u \<in> reach citation_pattern t" by blast
  then obtain t1 t2 t3 t4 t5 where
    "t1 \<in> reach (chr CHR ''['') t" "t2 \<in> reach (plus True (Atom isdigit)) t1"
    "t3 \<in> reach (chr CHR '']'') t2" "t4 \<in> reach (Star True (Atom isspace)) t3"
    "t5 \<in> reach (plus False (Atom (\<lambda>x. True))) t4"
    unfolding citation_pattern_def seqs.simps space_def any_char_def digit_def
    by (elim reach_SeqE) (simp only: reach.simps(8))
  then obtain ds ws x where "t = CHR ''['' # t1" "t1 = ds @ t2" "t2 = CHR '']'' # t3"
    "t3 = ws @ t4" "t4 = x @ t5" "ds \<noteq> []" "\<forall>c \<in> set ds. isdigit c" "x \<noteq> []"
    unfolding reach_star_atom reach_chr reach_plus_atom by blast
  then show "numbered_entry t"
    unfolding numbered_entry_def
    by (intro exI [of _ ds] exI [of _ "ws @ x @ t5"]) simp
next
  assume "numbered_entry t"
  then obtain ds x where t: "t = ''['' @ ds @ '']'' @ x" and ds: "ds \<noteq> []" "\<forall>c \<in> set ds. isdigit c"
    and x: "x \<noteq> []"
    unfolding numbered_entry_def by blast
  have 1: "ds @ '']'' @ x \<in> reach (chr CHR ''['') t"
    unfolding reach_chr using t by simp
  have 2: "'']'' @ x \<in> reach (Grp 1 (plus True (Atom isdigit))) (ds @ '']'' @ x)"
    unfolding reach.simps(8) reach_plus_atom using ds by blast
  have 3: "x \<in> reach (chr CHR '']'') ('']'' @ x)"
    unfolding reach_chr by simp
  have 4: "x \<in> reach (Star True (Atom isspace)) x"
    unfolding reach_star_atom by simp
  have 5: "[] \<in> reach (Grp 2 (plus False (Atom (\<lambda>x. True)))) x"
    unfolding reach.simps(8) reach_plus_atom using x by simp
  have 6: "[] \<in> reach (Seq (Alt (lit [NL, CHR ''['']) Eos) Eps) []"
    by simp
  have "[] \<in> reach citation_pattern t"
    unfolding citation_pattern_def seqs.simps space_def any_char_def digit_def
    by (intro reach_SeqI [OF 1] reach_SeqI [OF 2] reach_SeqI [OF 3] reach_SeqI [OF 4]
          reach_SeqI [OF 5]) (rule 6)
  then show "reach citation_pattern t \<noteq> {}" by blast
qed

lemma finditer_citation_Nil: "(finditer citation_pattern s = []) = (\<not> has_entry s)"
  unfolding finditer_Nil_iff search_None_iff rmatch_None has_entry_def
  using reach_citation_pattern by blast

text \<open>A greedy repetition of a character class reads all the characters of the class.\<close>

lemma star_greedy:
  assumes "\<forall>c \<in> set ws. p c" "s = [] \<or> \<not> p (hd s)" "k (g, s) = Some x"
  shows "rmatch (Star True (Atom p)) k (g, ws @ s) = Some x"
  using assms(1)
proof (induction ws)
  case Nil
  show ?case
  proof (cases s)
    case Nil
    with assms(3) show ?thesis by simp
  next
    case (Cons c cs)
    with assms(2,3) show ?thesis by simp
  qed
next
  case (Cons c ws)
  then have "rmatch (Star True (Atom p)) k (g, ws @ s) = Some x" "p c"
    by simp_all
  then show ?case by simp
qed

lemma rmatch_Seq: "rmatch (Seq a b) k = rmatch a (rmatch b k)"
  by (rule ext) simp

lemma rmatch_Eps: "rmatch Eps k = k"
  by (rule ext) simp

lemma rmatch_rest_group:
  "rmatch (Grp n (plus True (Atom (\<lambda>x. True)))) Some (g, s) =
     (if s = [] then None else Some ((n, s) # g, []))"
proof (cases s)
  case Nil
  then show ?thesis by (simp add: plus_def)
next
  case (Cons c cs)
  let ?k = "\<lambda>st'. Some ((n, take (length s - length (snd st')) s) # fst st', snd st')"
  have "rmatch (Star True (Atom (\<lambda>x. True))) ?k (g, cs @ []) = Some ((n, s) # g, [])"
    by (rule star_greedy) simp_all
  with Cons show ?thesis
    by (simp add: plus_def del: rmatch.simps(7))
qed

lemma reach_heading:
  "(u \<in> reach (Seq (Alt (lit_i ''Bibliography'') (Alt (lit_i ''Sources'') (lit_i ''References'')))
               (Seq (Opt (chr CHR '':'')) (Seq (Star True (Atom isspace)) (chr NL)))) t) =
     (\<exists>h. t = h @ u \<and> heading h)"
proof
  assume "u \<in> reach (Seq (Alt (lit_i ''Bibliography'') (Alt (lit_i ''Sources'') (lit_i ''References'')))
               (Seq (Opt (chr CHR '':'')) (Seq (Star True (Atom isspace)) (chr NL)))) t"
  then obtain t1 t2 t3 where
    "t1 \<in> reach (Alt (lit_i ''Bibliography'') (Alt (lit_i ''Sources'') (lit_i ''References''))) t"
    "t2 \<in> reach (Opt (chr CHR '':'')) t1" "t3 \<in> reach (Star True (Atom isspace)) t2"
    "u \<in> reach (chr NL) t3"
    by (elim reach_SeqE)
  then obtain w colon ws where "t = w @ t1" "t1 = colon @ t2" "t2 = ws @ t3" "t3 = NL # u"
    "lower w \<in> {''bibliography'', ''sources'', ''references''}"
    "colon = [] \<or> colon = '':''" "\<forall>c \<in> set ws. isspace c"
    unfolding reach_keyword reach_opt_chr reach_star_atom reach_chr by blast
  then show "\<exists>h. t = h @ u \<and> heading h"
    by (intro exI [of _ "w @ colon @ ws @ [NL]"]) (auto simp: heading_def)
next
  assume "\<exists>h. t = h @ u \<and> heading h"
  then obtain h where h: "t = h @ u" "heading h"
    by blast
  from h(2) obtain w colon ws where h': "h = w @ colon @ ws @ [NL]"
    and w: "lower w \<in> {''bibliography'', ''sources'', ''references''}"
    and c: "colon = [] \<or> colon = '':''" and ws: "\<forall>c \<in> set ws. isspace c"
    unfolding heading_def by blast
  from h(1) h' have t: "t = w @ colon @ ws @ [NL] @ u"
    by simp
  have 1: "colon @ ws @ [NL] @ u \<in>
      reach (Alt (lit_i ''Bibliography'') (Alt (lit_i ''Sources'') (lit_i ''References''))) t"
    unfolding reach_keyword using t w by blast
  have 2: "ws @ [NL] @ u \<in> reach (Opt (chr CHR '':'')) (colon @ ws @ [NL] @ u)"
    unfolding reach_opt_chr using c by auto
  have 3: "[NL] @ u \<in> reach (Star True (Atom isspace)) (ws @ [NL] @ u)"
    unfolding reach_star_atom using ws by blast
  have 4: "u \<in> reach (chr NL) ([NL] @ u)"
    unfolding reach_chr by simp
  show "u \<in> reach (Seq (Alt (lit_i ''Bibliography'') (Alt (lit_i ''Sources'') (lit_i ''References'')))
               (Seq (Opt (chr CHR '':'')) (Seq (Star True (Atom isspace)) (chr NL)))) t"
    by (intro reach_SeqI [OF 1] reach_SeqI [OF 2] reach_SeqI [OF 3]) (rule 4)
qed

text \<open>
  A match of \<open>bib_re\<close> at the start of \<open>t\<close>: a heading, and group 1 is all the text
  after it.
\<close>

lemma rmatch_bib_re:
  assumes "rmatch bib_re Some (g, t) = Some x"
  shows "\<exists>h. t = h @ group (fst x) 1 \<and> heading h \<and> group (fst x) 1 \<noteq> []"
proof -
  let ?head = "Seq (Alt (lit_i ''Bibliography'') (Alt (lit_i ''Sources'') (lit_i ''References'')))
               (Seq (Opt (chr CHR '':'')) (Seq (Star True (Atom isspace)) (chr NL)))"
  let ?rest = "Grp 1 (plus True (Atom (\<lambda>x. True)))"
  have "rmatch bib_re Some (g, t) = rmatch ?head (rmatch ?rest Some) (g, t)"
    unfolding bib_re_def seqs.simps space_def any_char_def
    by (simp only: rmatch_Seq rmatch_Eps)
  with assms have "rmatch ?head (rmatch ?rest Some) (g, t) = Some x"
    by simp
  from rmatch_sound [OF this] obtain g' u
    where u: "u \<in> reach ?head t" and r: "rmatch ?rest Some (g', u) = Some x"
    by blast
  from r have "u \<noteq> []" "x = ((1, u) # g', [])"
    unfolding rmatch_rest_group by (auto split: if_splits)
  then have "group (fst x) 1 = u" "u \<noteq> []"
    by (simp_all add: group_def)
  with u show ?thesis
    unfolding reach_heading by auto
qed

lemma append_eq_le:
  assumes "xs @ ys = zs @ ws" "length xs \<le> length zs"
  shows "\<exists>u. zs = xs @ u \<and> ys = u @ ws"
  using assms by (auto simp: append_eq_append_conv2)

lemma append_eq_cases:
  assumes "xs @ ys = zs @ ws"
  shows "(\<exists>v. xs = zs @ v \<and> ws = v @ ys) \<or> (\<exists>v. zs = xs @ v \<and> ys = v @ ws)"
  using assms by (auto simp: append_eq_append_conv2)

lemma heading_no_bracket: "heading h \<Longrightarrow> CHR ''['' \<notin> set h"
proof
  assume "heading h" "CHR ''['' \<in> set h"
  then obtain w colon ws where h: "h = w @ colon @ ws @ [NL]"
    and w: "lower w \<in> {''bibliography'', ''sources'', ''references''}"
    and c: "colon = [] \<or> colon = '':''" and ws: "\<forall>c \<in> set ws. isspace c"
    unfolding heading_def by blast
  have "\<not> isspace CHR ''[''"
    by (simp add: isspace_def)
  with \<open>CHR ''['' \<in> set h\<close> h c ws have "CHR ''['' \<in> set w"
    by auto
  then have "lower_char CHR ''['' \<in> set (lower w)"
    by (auto simp: lower_def)
  moreover have "lower_char CHR ''['' = CHR ''[''"
    by (simp add: lower_char_def)
  ultimately show False
    using w by auto
qed

text \<open>
  The section the resolver reads: the leftmost heading, and all the text after it. An
  entry after any heading of the text lies in that section.
\<close>

lemma search_bib_re:
  assumes "search bib_re text = Some x"
  shows "\<exists>pre h. text = pre @ h @ group (fst x) 1 \<and> heading h \<and> group (fst x) 1 \<noteq> [] \<and>
           (has_entry (group (fst x) 1) \<longleftrightarrow> heading_then_entry text)"
proof -
  from search_SomeD [OF assms] obtain pre t where
    tx: "text = pre @ t" and m: "rmatch bib_re Some ([], t) = Some x"
    and left: "\<forall>pre' t'. text = pre' @ t' \<and> length pre' < length pre \<longrightarrow>
                rmatch bib_re Some ([], t') = None"
    by blast
  let ?s = "group (fst x) 1"
  from rmatch_bib_re [OF m] obtain h where h: "t = h @ ?s" "heading h" "?s \<noteq> []"
    by blast
  have "has_entry ?s" if "heading_then_entry text"
  proof -
    from that obtain pre' h' more where o: "text = pre' @ h' @ more" "heading h'" "has_entry more"
      unfolding heading_then_entry_def by blast
    from o(3) obtain a e where e: "more = a @ e" "numbered_entry e"
      unfolding has_entry_def by blast
    from e(2) obtain e' where e': "e = CHR ''['' # e'"
      unfolding numbered_entry_def by auto
    have "\<not> length pre' < length pre"
    proof
      assume "length pre' < length pre"
      with left o(1) have "rmatch bib_re Some ([], h' @ more) = None" by blast
      then have "reach bib_re (h' @ more) = {}"
        by (simp only: rmatch_None)
      moreover from e e' o(2) have "reach bib_re (h' @ more) \<noteq> {}"
        unfolding reach_bib_re by blast
      ultimately show False by simp
    qed
    then have "length pre \<le> length (pre' @ h' @ a)"
      by simp
    moreover from tx h(1) o(1) e(1) have "pre @ (h @ ?s) = (pre' @ h' @ a) @ e"
      by simp
    ultimately obtain u where u: "pre' @ h' @ a = pre @ u" "h @ ?s = u @ e"
      using append_eq_le [of pre "h @ ?s" "pre' @ h' @ a" e] by blast
    from u(2) consider v where "h = u @ v" "e = v @ ?s" | v where "u = h @ v" "?s = v @ e"
      using append_eq_cases [of h ?s u e] by blast
    then show ?thesis
    proof cases
      case 1
      show ?thesis
      proof (cases v)
        case Nil
        with 1 e(2) show ?thesis
          unfolding has_entry_def by (intro exI [of _ "[]"] exI [of _ e]) simp
      next
        case (Cons c cs)
        with 1 e' have "CHR ''['' \<in> set h" by simp
        with heading_no_bracket [OF h(2)] show ?thesis by simp
      qed
    next
      case 2
      with e(2) show ?thesis
        unfolding has_entry_def by blast
    qed
  qed
  moreover have "heading_then_entry text" if "has_entry ?s"
    unfolding heading_then_entry_def using tx h that by blast
  ultimately show ?thesis
    using tx h by blast
qed

section \<open>The worker\<close>

lemma subagent_research_Inr:
  "subagent_research a t outcome = Inr r \<Longrightarrow> task r = t \<and> agent_id r = a"
  by (cases outcome)
     (auto simp: subagent_research_def research_try_def Let_def split: exn.splits)

lemma subagent_research_Inl:
  "subagent_research a t outcome = Inl e \<longleftrightarrow>
     (\<exists>c m. outcome = Raises (Base_exception c m) \<and> e = Base_exception c m)"
  by (cases outcome)
     (auto simp: subagent_research_def research_try_def Let_def split: exn.splits)

text \<open>
  C8, as stated, fails: an exception that is no instance of \<open>Exception\<close>, such as the
  \<open>CancelledError\<close> of a cancelled reasoning loop, passes the handler of the worker's
  \<open>research\<close> and reaches the coordinator.
\<close>

theorem worker_failure_escapes_counterexample:
  "subagent_research ''subagent_0'' ''A'' (Raises (Base_exception ''CancelledError'' [])) =
     Inl (Base_exception ''CancelledError'' [])"
  by (simp add: subagent_research_def research_try_def)

text \<open>
  C8, amended. When the reasoning loop raises an instance of \<open>Exception\<close>, the worker's
  \<open>research\<close> returns a result for its task with confidence \<open>low\<close>, no sources, and a
  summary and findings that carry the text of the exception. An exception that is no
  instance of \<open>Exception\<close> leaves \<open>research\<close>, and nothing else does: for every other
  outcome of the reasoning loop \<open>research\<close> returns a result, which carries the
  worker's task and id.
\<close>

theorem worker_failure_isolated:
  "subagent_research a t (Raises (Exception m)) =
     Inr \<lparr>agent_id = a, task = t, summary = ''Research failed: '' @ m,
          findings = ''Error occurred during research: '' @ m,
          sources = [], confidence = ''low''\<rparr> \<and>
   subagent_research a t (Raises (Base_exception c m)) = Inl (Base_exception c m) \<and>
   ((\<exists>e. subagent_research a t outcome = Inl e) \<longleftrightarrow>
      (\<exists>c' m'. outcome = Raises (Base_exception c' m'))) \<and>
   (\<forall>r. subagent_research a t outcome = Inr r \<longrightarrow> task r = t \<and> agent_id r = a)"
proof (intro conjI allI impI)
  show "subagent_research a t (Raises (Exception m)) =
     Inr \<lparr>agent_id = a, task = t, summary = ''Research failed: '' @ m,
          findings = ''Error occurred during research: '' @ m,
          sources = [], confidence = ''low''\<rparr>"
    by (simp add: subagent_research_def research_try_def)
  show "subagent_research a t (Raises (Base_exception c m)) = Inl (Base_exception c m)"
    by (simp add: subagent_research_def research_try_def)
  show "(\<exists>e. subagent_research a t outcome = Inl e) \<longleftrightarrow>
      (\<exists>c' m'. outcome = Raises (Base_exception c' m'))"
    by (auto simp: subagent_research_Inl)
next
  fix r assume "subagent_research a t outcome = Inr r"
  then show "task r = t" "agent_id r = a"
    by (simp_all add: subagent_research_Inr)
qed

theorem worker_failure_isolated_witness:
  "subagent_research ''subagent_1'' ''B'' (Raises (Exception ''timeout'')) =
     Inr \<lparr>agent_id = ''subagent_1'', task = ''B'', summary = ''Research failed: timeout'',
          findings = ''Error occurred during research: timeout'',
          sources = [], confidence = ''low''\<rparr> \<and>
   (\<exists>r. subagent_research ''subagent_1'' ''B'' (Returns (Out_str ''Done.'') []) = Inr r \<and>
        task r = ''B'' \<and> agent_id r = ''subagent_1'')"
proof -
  note t = worker_failure_isolated [of "''subagent_1''" "''B''" "''timeout''" "[]"
      "Returns (Out_str ''Done.'') []"]
  from t have "\<not> (\<exists>e. subagent_research ''subagent_1'' ''B'' (Returns (Out_str ''Done.'') []) = Inl e)"
    by simp
  then obtain r where r: "subagent_research ''subagent_1'' ''B'' (Returns (Out_str ''Done.'') []) = Inr r"
    by (cases "subagent_research ''subagent_1'' ''B'' (Returns (Out_str ''Done.'') [])") auto
  with t have "task r = ''B'' \<and> agent_id r = ''subagent_1''"
    by blast
  with t r show ?thesis by simp
qed


section \<open>The coordinator\<close>

















section \<open>The plan\<close>

text \<open>
  C5, as stated, fails for a negative \<open>max_subagents\<close>: the slice then drops tasks from
  the end, and the plan of two tasks below keeps one, not \<open>-1\<close>.
\<close>

theorem plan_clamp_counterexample:
  "int (length (tasks \<lparr>tasks = [''A'', ''B''], rationale = [], estimated_duration = None\<rparr>))
     > max_subagents \<lparr>max_subagents = - 1, min_subagents = 3\<rparr> \<and>
   int (length (tasks (enforce_max_subagents \<lparr>max_subagents = - 1, min_subagents = 3\<rparr>
      \<lparr>tasks = [''A'', ''B''], rationale = [], estimated_duration = None\<rparr>)))
     \<noteq> max_subagents \<lparr>max_subagents = - 1, min_subagents = 3\<rparr>"
  by (simp add: enforce_max_subagents_def slice_to_def)

text \<open>
  C5, amended. When \<open>max_subagents\<close> is not negative, a plan with more tasks than
  \<open>max_subagents\<close> is cut to its first \<open>max_subagents\<close> tasks, in their order, and has
  exactly that many; a plan with at most \<open>max_subagents\<close> tasks is unchanged.
\<close>

theorem plan_clamp:
  assumes "0 \<le> max_subagents st"
  shows "(int (length (tasks p)) > max_subagents st \<longrightarrow>
            tasks (enforce_max_subagents st p) = take (nat (max_subagents st)) (tasks p) \<and>
            int (length (tasks (enforce_max_subagents st p))) = max_subagents st) \<and>
         (int (length (tasks p)) \<le> max_subagents st \<longrightarrow> enforce_max_subagents st p = p)"
  using assms by (auto simp: enforce_max_subagents_def slice_to_def)

theorem plan_clamp_witness:
  "0 \<le> max_subagents default_settings \<and>
   tasks (enforce_max_subagents default_settings
     \<lparr>tasks = [''A'', ''B'', ''C'', ''D'', ''E'', ''F''], rationale = ''r'',
      estimated_duration = None\<rparr>) = [''A'', ''B'', ''C'', ''D'', ''E'']"
proof -
  have h: "0 \<le> max_subagents default_settings"
    by (simp add: default_settings_def)
  show ?thesis
    using h plan_clamp [OF h, of "\<lparr>tasks = [''A'', ''B'', ''C'', ''D'', ''E'', ''F''],
      rationale = ''r'', estimated_duration = None\<rparr>"]
    by (simp add: default_settings_def)
qed




section \<open>The research workflow\<close>






















section \<open>Progress\<close>

text \<open>
  C9. With three tasks whose workers all start before the first one finishes (and
  finish in task order), the run succeeds and the percentages go from 55 back to 40: the
  percentage of a worker's update is computed from the worker's position in the task
  list, not from the number of workers that have finished.
\<close>

theorem progress_percent_decreases:
  "map_prod (map percent) isl (research quiet default_settings overlapping_env ''q'') =
     ([10, 20, 25, 25, 40, 55, 40, 55, 70, 70, 75, 90, 100], False) \<and>
   \<not> sorted [10, 20, 25, 25, 40, 55, 40, 55, 70, 70, 75, 90, 100 :: int]"
  by code_simp


section \<open>Parsing the bibliography section\<close>

text \<open>
  C2. The response below has a bibliography of two entries in the format the citation
  prompt asks for, each with a \<open>URL:\<close> and an \<open>Accessed:\<close> line. The resolver returns
  one Citation, for the first entry: the pattern consumes the newline and the bracket
  that open the second entry, so the search for the next match starts past them.
\<close>

theorem two_entries_yield_one_citation:
  "parse_bibliography two_entries [''http://a.com'', ''http://b.com''] ''2025-01-01'' =
     Inr [\<lparr>index = 1, title = ''Alpha'', url = ''http://a.com'', accessed_date = ''2024-01-01'',
           excerpt = None\<rparr>]"
  by code_simp


section \<open>The bibliography\<close>

lemma int_of_digits_Inl:
  "(int_of_digits s = Inl e) = (4300 < length s \<and> e = digits_error (length s))"
  by (auto simp: int_of_digits_def digits_error_def)

lemma citation_of_match_Inl:
  "(citation_of_match m = Inl e) =
     (4300 < length (group m 1) \<and> e = digits_error (length (group m 1)))"
  using int_of_digits_Inl [of "group m 1" e]
  by (cases "int_of_digits (group m 1)") (auto simp: citation_of_match_def Let_def)

lemma citations_of_Inl:
  "citations_of ms = Inl e \<Longrightarrow> \<exists>m \<in> set ms. citation_of_match m = Inl e"
  by (induction ms) (auto split: sum.splits)

lemma citations_of_Inr:
  "citations_of ms = Inr cs \<Longrightarrow>
     length cs = length ms \<and> (\<forall>k < length ms. citation_of_match (ms ! k) = Inr (cs ! k))"
proof (induction ms arbitrary: cs)
  case Nil
  then show ?case by simp
next
  case (Cons m ms)
  from Cons.prems obtain c cs' where c: "citation_of_match m = Inr c" "citations_of ms = Inr cs'"
    "cs = c # cs'"
    by (auto split: sum.splits)
  from Cons.IH [OF c(2)] c(1,3) show ?case
    by (auto simp: nth_Cons split: nat.splits)
qed

lemma length_fallback_citations:
  "length (fallback_citations all_sources current_date) = length all_sources"
  by (simp add: fallback_citations_def del: upt_Suc)

lemma first_exception_object_results: "first_exception_object (map Result rs) = None"
  by (induction rs) simp_all

lemma results_of_results: "results_of (map Result rs) = rs"
  by (induction rs) simp_all

lemma heading_then_entry_heading: "heading_then_entry text \<Longrightarrow> has_heading text"
  unfolding heading_then_entry_def has_heading_def has_entry_def numbered_entry_def
  by fastforce

text \<open>
  C3, as stated, fails. The response below has no bibliography section that can be
  parsed, and two sources are registered; but \<open>resources\<close> ends in \<open>sources\<close> and a
  line follows, so the resolver takes the rest for a bibliography section, finds no
  entry in it, and returns no Citation at all.
\<close>

theorem fallback_bibliography_counterexample:
  "parse_bibliography ''Many resources\<newline>are cited here.'' [''http://a.com'', ''http://b.com'']
     ''2025-01-01'' = Inr []"
  by code_simp

text \<open>
  C3, amended. When the citation response has no heading (none of the words
  \<open>Bibliography\<close>, \<open>Sources\<close>, \<open>References\<close>, in any letter case and also as part of a
  longer word, possibly followed by a colon, is followed by white space with a newline
  and more text), the bibliography has one Citation per source, numbered from 1 in the
  order of the source list, each with its title and its url equal to the source.
\<close>

theorem fallback_bibliography:
  assumes "\<not> has_heading text"
  shows "\<exists>cs. parse_bibliography text all_sources current_date = Inr cs \<and>
           length cs = length all_sources \<and>
           (\<forall>i < length all_sources.
              index (cs ! i) = int i + 1 \<and> url (cs ! i) = all_sources ! i \<and>
              title (cs ! i) = url (cs ! i))"
proof -
  from assms have "search bib_re text = None"
    by (simp add: search_bib_None)
  then show ?thesis
    by (simp add: parse_bibliography_def fallback_citations_def nth_upt del: upt_Suc)
qed

theorem fallback_bibliography_witness:
  "\<not> has_heading ''No bibliography here.'' \<and>
   parse_bibliography ''No bibliography here.'' [''http://a.com'', ''http://b.com''] ''2025-01-01'' =
     Inr [\<lparr>index = 1, title = ''http://a.com'', url = ''http://a.com'',
           accessed_date = ''2025-01-01'', excerpt = None\<rparr>,
          \<lparr>index = 2, title = ''http://b.com'', url = ''http://b.com'',
           accessed_date = ''2025-01-01'', excerpt = None\<rparr>]"
proof -
  have "search bib_re ''No bibliography here.'' = None"
    by code_simp
  with search_bib_None [of "''No bibliography here.''"]
  have h: "\<not> has_heading ''No bibliography here.''"
    by blast
  from fallback_bibliography [OF h, of "[''http://a.com'', ''http://b.com'']" "''2025-01-01''"]
  obtain cs where "parse_bibliography ''No bibliography here.'' [''http://a.com'', ''http://b.com'']
      ''2025-01-01'' = Inr cs" "length cs = 2"
    by auto
  moreover have "parse_bibliography ''No bibliography here.'' [''http://a.com'', ''http://b.com'']
      ''2025-01-01'' =
     Inr [\<lparr>index = 1, title = ''http://a.com'', url = ''http://a.com'',
           accessed_date = ''2025-01-01'', excerpt = None\<rparr>,
          \<lparr>index = 2, title = ''http://b.com'', url = ''http://b.com'',
           accessed_date = ''2025-01-01'', excerpt = None\<rparr>]"
    by code_simp
  ultimately show ?thesis using h by simp
qed

text \<open>
  C4, as stated, fails: a response with a heading and no numbered entry after it yields
  an empty bibliography although two sources are registered.
\<close>

theorem bibliography_empty_counterexample:
  "fst (compile_sources two_reports) \<noteq> [] \<and>
   add_citations (Inr ''Sources:\<newline>none'') ''2025-01-01'' (map Result two_reports) =
     Inr \<lparr>cr_cited_report = ''Sources:\<newline>none'', cr_bibliography = [], cr_source_count = 2\<rparr>"
  by code_simp

lemma parse_bibliography_cases:
  assumes "all_sources \<noteq> []"
  shows "(\<forall>cs. parse_bibliography text all_sources current_date = Inr cs \<longrightarrow>
            (cs \<noteq> [] \<longleftrightarrow> \<not> has_heading text \<or> heading_then_entry text)) \<and>
         (\<forall>e. parse_bibliography text all_sources current_date = Inl e \<longrightarrow>
            heading_then_entry text \<and> (\<exists>n > 4300. e = digits_error n))"
proof (cases "search bib_re text")
  case None
  then have "\<not> has_heading text"
    by (simp add: search_bib_None)
  moreover from None have "parse_bibliography text all_sources current_date =
      Inr (fallback_citations all_sources current_date)"
    by (simp add: parse_bibliography_def)
  moreover from assms have "fallback_citations all_sources current_date \<noteq> []"
    using length_fallback_citations [of all_sources current_date] by (metis length_0_conv)
  ultimately show ?thesis by simp
next
  case (Some x)
  let ?ms = "finditer citation_pattern (group (fst x) 1)"
  from Some have h: "has_heading text"
    using search_bib_None [of "text"] by simp
  from search_bib_re [OF Some]
  have e: "has_entry (group (fst x) 1) \<longleftrightarrow> heading_then_entry text"
    by blast
  have ms: "?ms \<noteq> [] \<longleftrightarrow> heading_then_entry text"
    using finditer_citation_Nil [of "group (fst x) 1"] e by simp
  from Some have p: "parse_bibliography text all_sources current_date = citations_of ?ms"
    by (simp add: parse_bibliography_def)
  show ?thesis
  proof (intro conjI allI impI)
    fix cs assume "parse_bibliography text all_sources current_date = Inr cs"
    with p citations_of_Inr [of "?ms" cs] have "length cs = length ?ms"
      by simp
    then have "cs \<noteq> [] \<longleftrightarrow> ?ms \<noteq> []"
      by (metis length_0_conv)
    with ms h show "cs \<noteq> [] \<longleftrightarrow> \<not> has_heading text \<or> heading_then_entry text"
      by simp
  next
    fix e assume "parse_bibliography text all_sources current_date = Inl e"
    with p citations_of_Inl [of "?ms" e] obtain m where m: "m \<in> set ?ms" "citation_of_match m = Inl e"
      by auto
    from m(1) have "?ms \<noteq> []" by auto
    with ms show "heading_then_entry text" by simp
    from m(2) show "\<exists>n > 4300. e = digits_error n"
      unfolding citation_of_match_Inl by blast
  qed
qed

text \<open>
  C4, amended. When at least one source is registered and the resolver returns, the
  bibliography is non-empty exactly when the response has no heading (the bibliography
  is then made of the registry) or some heading of the response is followed by a
  numbered entry; so it is empty for a response with a heading and no numbered entry
  after it. When the resolver does not return, a heading is followed by a numbered
  entry and the exception is the \<open>ValueError\<close> of \<open>int\<close> for a number of more than 4300
  digits.
\<close>

theorem bibliography_nonempty:
  assumes "fst (compile_sources rs) \<noteq> []"
  shows "(\<forall>cr. add_citations (Inr text) current_date (map Result rs) = Inr cr \<longrightarrow>
            (cr_bibliography cr \<noteq> [] \<longleftrightarrow> \<not> has_heading text \<or> heading_then_entry text)) \<and>
         (\<forall>e. add_citations (Inr text) current_date (map Result rs) = Inl e \<longrightarrow>
            heading_then_entry text \<and> (\<exists>n > 4300. e = digits_error n))"
proof -
  let ?srcs = "fst (compile_sources rs)"
  have a: "add_citations (Inr text) current_date (map Result rs) =
      (case parse_bibliography text ?srcs current_date of
         Inl e \<Rightarrow> Inl e
       | Inr bib \<Rightarrow> Inr \<lparr>cr_cited_report = text, cr_bibliography = bib,
                         cr_source_count = length ?srcs\<rparr>)"
    by (simp add: add_citations_def first_exception_object_results results_of_results Let_def)
  from parse_bibliography_cases [OF assms, of "text" current_date] show ?thesis
    unfolding a by (cases "parse_bibliography text ?srcs current_date") auto
qed

theorem bibliography_nonempty_witness:
  "fst (compile_sources two_reports) \<noteq> [] \<and>
   add_citations (Inr two_entries) ''2025-01-01'' (map Result two_reports) =
     Inr \<lparr>cr_cited_report = two_entries,
          cr_bibliography =
            [\<lparr>index = 1, title = ''Alpha'', url = ''http://a.com'', accessed_date = ''2024-01-01'',
              excerpt = None\<rparr>],
          cr_source_count = 2\<rparr> \<and>
   heading_then_entry two_entries \<and>
   add_citations (Inr ''Sources:\<newline>none'') ''2025-01-01'' (map Result two_reports) =
     Inr \<lparr>cr_cited_report = ''Sources:\<newline>none'', cr_bibliography = [], cr_source_count = 2\<rparr> \<and>
   has_heading ''Sources:\<newline>none'' \<and> \<not> heading_then_entry ''Sources:\<newline>none''"
proof -
  have h: "fst (compile_sources two_reports) \<noteq> []"
    by code_simp
  have one: "add_citations (Inr two_entries) ''2025-01-01'' (map Result two_reports) =
     Inr \<lparr>cr_cited_report = two_entries,
          cr_bibliography =
            [\<lparr>index = 1, title = ''Alpha'', url = ''http://a.com'', accessed_date = ''2024-01-01'',
              excerpt = None\<rparr>],
          cr_source_count = 2\<rparr>"
    by code_simp
  have two: "add_citations (Inr ''Sources:\<newline>none'') ''2025-01-01'' (map Result two_reports) =
     Inr \<lparr>cr_cited_report = ''Sources:\<newline>none'', cr_bibliography = [], cr_source_count = 2\<rparr>"
    by code_simp
  from bibliography_nonempty [OF h, of two_entries "''2025-01-01''"] one
  have "\<not> has_heading two_entries \<or> heading_then_entry two_entries"
    by simp
  moreover have "search bib_re two_entries \<noteq> None"
    by code_simp
  with search_bib_None [of two_entries] have "has_heading two_entries"
    by blast
  ultimately have three: "heading_then_entry two_entries"
    by blast
  from bibliography_nonempty [OF h, of "''Sources:\<newline>none''" "''2025-01-01''"] two
  have four: "has_heading ''Sources:\<newline>none''" "\<not> heading_then_entry ''Sources:\<newline>none''"
    by simp_all
  from h one two three four show ?thesis by (intro conjI)
qed

section \<open>The source registry\<close>





lemma subagent_research_agent_id:
  "subagent_research a t outcome = Inr r \<Longrightarrow> agent_id r = a"
  using subagent_research_Inr by blast









end
